theory Spec2Isabelle
  imports Main
begin

section \<open>Strings\<close>

text \<open>
  JavaScript strings are modelled as \<^typ>\<open>string\<close>: one \<^typ>\<open>char\<close> per code unit, which
  covers the code units below 256. The regular-expression classes the server uses are ASCII
  classes (\<^verbatim>\<open>\d\<close>, \<^verbatim>\<open>\w\<close>); \<^verbatim>\<open>\s\<close> and \<^verbatim>\<open>trim\<close> also
  take the no-break space.
\<close>

definition isDigit :: "char \<Rightarrow> bool" where
  "isDigit c = (c \<in> set ''0123456789'')"

definition isSpace :: "char \<Rightarrow> bool" where
  "isSpace c = (c \<in> {CHR 0x09, CHR 0x0A, CHR 0x0B, CHR 0x0C, CHR 0x0D, CHR 0x20, CHR 0xA0})"

definition isWordChar :: "char \<Rightarrow> bool" where
  "isWordChar c = (c \<in> set ''abcdefghijklmnopqrstuvwxyzABCDEFGHIJKLMNOPQRSTUVWXYZ0123456789_'')"

text \<open>
  \<^verbatim>\<open>toLowerCase\<close> and \<^verbatim>\<open>toUpperCase\<close> on the code units below 256: the ASCII letters
  and the letters of the Latin-1 block (all of \<open>0xC0\<close> to \<open>0xDE\<close> but the multiplication
  sign, all of \<open>0xE0\<close> to \<open>0xFE\<close> but the division sign) change case by the bit of
  weight 32. Three characters have an upper case that is not one code unit below 256 (the
  micro sign, the sharp s, the y with diaeresis); \<open>toUpperChar\<close> leaves them as they are,
  which does not change where the blank and the letters \<open>A\<close>, \<open>N\<close>, \<open>D\<close> stand in the result.
\<close>

definition isAsciiUpper :: "char \<Rightarrow> bool" where
  "isAsciiUpper c = (c \<in> set ''ABCDEFGHIJKLMNOPQRSTUVWXYZ'')"

definition isAsciiLower :: "char \<Rightarrow> bool" where
  "isAsciiLower c = (c \<in> set ''abcdefghijklmnopqrstuvwxyz'')"

definition isLatin1Upper :: "char \<Rightarrow> bool" where
  "isLatin1Upper c =
     (c \<in> set [CHR 0xC0, CHR 0xC1, CHR 0xC2, CHR 0xC3, CHR 0xC4, CHR 0xC5, CHR 0xC6, CHR 0xC7,
                 CHR 0xC8, CHR 0xC9, CHR 0xCA, CHR 0xCB, CHR 0xCC, CHR 0xCD, CHR 0xCE, CHR 0xCF,
                 CHR 0xD0, CHR 0xD1, CHR 0xD2, CHR 0xD3, CHR 0xD4, CHR 0xD5, CHR 0xD6,
                 CHR 0xD8, CHR 0xD9, CHR 0xDA, CHR 0xDB, CHR 0xDC, CHR 0xDD, CHR 0xDE])"

definition isLatin1Lower :: "char \<Rightarrow> bool" where
  "isLatin1Lower c =
     (c \<in> set [CHR 0xE0, CHR 0xE1, CHR 0xE2, CHR 0xE3, CHR 0xE4, CHR 0xE5, CHR 0xE6, CHR 0xE7,
                 CHR 0xE8, CHR 0xE9, CHR 0xEA, CHR 0xEB, CHR 0xEC, CHR 0xED, CHR 0xEE, CHR 0xEF,
                 CHR 0xF0, CHR 0xF1, CHR 0xF2, CHR 0xF3, CHR 0xF4, CHR 0xF5, CHR 0xF6,
                 CHR 0xF8, CHR 0xF9, CHR 0xFA, CHR 0xFB, CHR 0xFC, CHR 0xFD, CHR 0xFE])"

definition with_bit32 :: "bool \<Rightarrow> char \<Rightarrow> char" where
  "with_bit32 b c = (case c of Char b0 b1 b2 b3 b4 b5 b6 b7 \<Rightarrow> Char b0 b1 b2 b3 b4 b b6 b7)"

definition toLowerChar :: "char \<Rightarrow> char" where
  "toLowerChar c = (if isAsciiUpper c \<or> isLatin1Upper c then with_bit32 True c else c)"

definition toUpperChar :: "char \<Rightarrow> char" where
  "toUpperChar c = (if isAsciiLower c \<or> isLatin1Lower c then with_bit32 False c else c)"

text \<open>SQLite folds the case of the ASCII letters only.\<close>

definition asciiLowerChar :: "char \<Rightarrow> char" where
  "asciiLowerChar c = (if isAsciiUpper c then with_bit32 True c else c)"

definition toLowerCase :: "string \<Rightarrow> string" where
  "toLowerCase s = map toLowerChar s"

definition toUpperCase :: "string \<Rightarrow> string" where
  "toUpperCase s = map toUpperChar s"

definition startsWith :: "string \<Rightarrow> string \<Rightarrow> bool" where
  "startsWith s p = (take (length p) s = p)"

definition endsWith :: "string \<Rightarrow> string \<Rightarrow> bool" where
  "endsWith s p = (length p \<le> length s \<and> drop (length s - length p) s = p)"

fun includesStr :: "string \<Rightarrow> string \<Rightarrow> bool" where
  "includesStr [] p = (p = [])"
| "includesStr (c # cs) p = (startsWith (c # cs) p \<or> includesStr cs p)"

definition trim :: "string \<Rightarrow> string" where
  "trim s = rev (dropWhile isSpace (rev (dropWhile isSpace s)))"

definition substring :: "string \<Rightarrow> nat \<Rightarrow> nat \<Rightarrow> string" where
  "substring s a b = take (b - a) (drop a s)"

section \<open>Dates from file names\<close>

text \<open>
  \<^verbatim>\<open>filename.match(/(?:rogers|lassiter)-(\d{8})/)\<close>: \<open>host_date_at\<close> is the match anchored at
  the head of the string, \<open>host_date_match\<close> tries every start position from the left and
  returns the capture group of the first match.
\<close>

definition prefixed_date :: "string \<Rightarrow> string \<Rightarrow> string option" where
  "prefixed_date tok s =
     (if startsWith s tok
      then (let d = take 8 (drop (length tok) s)
            in if length d = 8 \<and> list_all isDigit d then Some d else None)
      else None)"

definition host_date_at :: "string \<Rightarrow> string option" where
  "host_date_at s =
     (case prefixed_date ''rogers-'' s of
        Some d \<Rightarrow> Some d
      | None \<Rightarrow> prefixed_date ''lassiter-'' s)"

fun host_date_match :: "string \<Rightarrow> string option" where
  "host_date_match [] = host_date_at []"
| "host_date_match (c # cs) =
     (case host_date_at (c # cs) of
        Some d \<Rightarrow> Some d
      | None \<Rightarrow> host_date_match cs)"

text \<open>\<^verbatim>\<open>filename.match(/^(\d{4})/)\<close>\<close>

definition year_match :: "string \<Rightarrow> string option" where
  "year_match s =
     (let y = take 4 s in if length y = 4 \<and> list_all isDigit y then Some y else None)"

definition getDateFromFilename :: "string \<Rightarrow> string" where
  "getDateFromFilename filename =
     (case host_date_match filename of
        Some d \<Rightarrow> substring d 0 4 @ ''-'' @ substring d 4 6 @ ''-'' @ substring d 6 8
      | None \<Rightarrow>
          (case year_match filename of
             Some y \<Rightarrow> y @ ''-12-31''
           | None \<Rightarrow> ''Unknown Date''))"

text \<open>
  The property of a file name that the naming convention asks for: somewhere in the name, a
  host token, a dash and eight decimal digits. \<open>pre\<close> is what precedes the token.
\<close>

definition host_date_occurs :: "string \<Rightarrow> string \<Rightarrow> string \<Rightarrow> bool" where
  "host_date_occurs filename pre d =
     (\<exists>tok post. filename = pre @ tok @ ''-'' @ d @ post
        \<and> (tok = ''rogers'' \<or> tok = ''lassiter'')
        \<and> length d = 8 \<and> list_all isDigit d)"

definition has_host_date :: "string \<Rightarrow> bool" where
  "has_host_date filename = (\<exists>pre d. host_date_occurs filename pre d)"

definition format_date :: "string \<Rightarrow> string" where
  "format_date d = take 4 d @ ''-'' @ take 2 (drop 4 d) @ ''-'' @ take 2 (drop 6 d)"

fun join :: "string \<Rightarrow> string list \<Rightarrow> string" where
  "join sep [] = []"
| "join sep [x] = x"
| "join sep (x # y # ys) = x @ sep @ join sep (y # ys)"

definition digit_of :: "nat \<Rightarrow> char" where
  "digit_of n = ''0123456789'' ! n"

fun string_of_nat :: "nat \<Rightarrow> string" where
  "string_of_nat n =
     (if n < 10 then [digit_of n] else string_of_nat (n div 10) @ [digit_of (n mod 10)])"

text \<open>\<^verbatim>\<open>content.split(/\r?\n/)\<close>: a line feed ends a line, and takes a carriage return
  right before it with it.\<close>

fun split_lines_from :: "string \<Rightarrow> string \<Rightarrow> string list" where
  "split_lines_from cur [] = [cur]"
| "split_lines_from cur [c] = (if c = CHR 0x0A then [cur, []] else [cur @ [c]])"
| "split_lines_from cur (c # d # cs) =
     (if c = CHR 0x0A then cur # split_lines_from [] (d # cs)
      else if c = CHR 0x0D \<and> d = CHR 0x0A then cur # split_lines_from [] cs
      else split_lines_from (cur @ [c]) (d # cs))"

definition split_lines :: "string \<Rightarrow> string list" where
  "split_lines content = split_lines_from [] content"

text \<open>\<^verbatim>\<open>content.split("\n")\<close>, as the search route splits a file.\<close>

fun split_on_from :: "char \<Rightarrow> string \<Rightarrow> string \<Rightarrow> string list" where
  "split_on_from sep cur [] = [cur]"
| "split_on_from sep cur (c # cs) =
     (if c = sep then cur # split_on_from sep [] cs else split_on_from sep (cur @ [c]) cs)"

definition split_on :: "char \<Rightarrow> string \<Rightarrow> string list" where
  "split_on sep s = split_on_from sep [] s"

text \<open>\<^verbatim>\<open>path.basename\<close> on a path with forward slashes.\<close>

definition basename :: "string \<Rightarrow> string" where
  "basename p = last (split_on CHR ''/'' p)"

section \<open>Segments and the transcript parser\<close>

text \<open>A row of the two full-text tables: the object \<^verbatim>\<open>{id, file, line, date, text_content, type}\<close>.\<close>

record doc =
  doc_id :: string
  doc_file :: string
  doc_line :: nat
  doc_date :: string
  text_content :: string
  doc_type :: string

text \<open>A row of the table \<^verbatim>\<open>shows\<close>; \<open>None\<close> is SQL \<^verbatim>\<open>NULL\<close>.\<close>

record show_row =
  show_date :: string
  show_file :: string
  show_type :: string
  show_youtube_url :: "string option"
  show_custom_title :: "string option"

text \<open>A row of \<^verbatim>\<open>show_links\<close>: date, youtube_url, host, custom_title.\<close>

type_synonym link_row = "string \<times> string \<times> string \<times> string"

definition isMarker :: "string \<Rightarrow> bool" where
  "isMarker line = (startsWith line ''['' \<and> includesStr line ''-->'')"

definition new_doc :: "string \<Rightarrow> string \<Rightarrow> nat \<Rightarrow> string \<Rightarrow> string \<Rightarrow> doc" where
  "new_doc relativePath date j txt ty =
     \<lparr>doc_id = relativePath @ ''::'' @ string_of_nat j, doc_file = relativePath, doc_line = j,
      doc_date = date, text_content = txt, doc_type = ty\<rparr>"

text \<open>
  The loop over the lines of a show file (the \<^verbatim>\<open>else\<close> branch of the ingest): \<open>j\<close> is the
  line index, \<open>currentDoc\<close> the open segment, \<open>batch\<close> the segments pushed so far.
\<close>

fun show_loop ::
  "string \<Rightarrow> string \<Rightarrow> nat \<Rightarrow> string list \<Rightarrow> doc option \<Rightarrow> doc list \<Rightarrow> doc option \<times> doc list" where
  "show_loop relativePath date j [] currentDoc batch = (currentDoc, batch)"
| "show_loop relativePath date j (l # ls) currentDoc batch =
     (let line = trim l in
        if line = [] then show_loop relativePath date (Suc j) ls currentDoc batch
        else if isMarker line then
          show_loop relativePath date (Suc j) ls
            (Some (new_doc relativePath date j [] ''show''))
            (case currentDoc of None \<Rightarrow> batch | Some d \<Rightarrow> batch @ [d])
        else
          (case currentDoc of
             Some d \<Rightarrow>
               show_loop relativePath date (Suc j) ls
                 (Some (d\<lparr>text_content := text_content d @ '' '' @ line\<rparr>)) batch
           | None \<Rightarrow> show_loop relativePath date (Suc j) ls None batch))"

definition parse_show :: "string \<Rightarrow> string \<Rightarrow> string list \<Rightarrow> doc list \<Rightarrow> doc list" where
  "parse_show relativePath date lines batch =
     (case show_loop relativePath date 0 lines None batch of
        (Some d, b) \<Rightarrow> b @ [d]
      | (None, b) \<Rightarrow> b)"

text \<open>
  What the specification says a show file's segments are, written from its words: one
  segment per marker line, in order; its text is made of the trimmed, non-blank lines that
  follow the marker up to the next marker or the end of the file. The code puts one space
  in front of each such line.
\<close>

definition segment_text :: "string list \<Rightarrow> string" where
  "segment_text following =
     concat (map (\<lambda>l. '' '' @ l)
       (filter (\<lambda>l. l \<noteq> []) (takeWhile (\<lambda>l. \<not> isMarker l) (map trim following))))"

definition marker_indices :: "string list \<Rightarrow> nat list" where
  "marker_indices lines = filter (\<lambda>j. isMarker (trim (lines ! j))) [0..<length lines]"

definition show_segments :: "string \<Rightarrow> string \<Rightarrow> string list \<Rightarrow> doc list" where
  "show_segments relativePath date lines =
     map (\<lambda>j. new_doc relativePath date j (segment_text (drop (Suc j) lines)) ''show'')
       (marker_indices lines)"

text \<open>
  Best-of files. \<^verbatim>\<open>line.match(/^(\d{1,2}:\d{2}(?::\d{2})?)\s+(.*)/)\<close>: one or two digits, a
  colon, two digits, optionally a colon and two more digits, then white space.
\<close>

definition eat_digits :: "nat \<Rightarrow> string \<Rightarrow> string option" where
  "eat_digits n s =
     (if length (take n s) = n \<and> list_all isDigit (take n s) then Some (drop n s) else None)"

definition starts_space :: "string \<Rightarrow> bool" where
  "starts_space s = (case s of [] \<Rightarrow> False | c # _ \<Rightarrow> isSpace c)"

definition clock_tail :: "string \<Rightarrow> bool" where
  "clock_tail r =
     ((case r of
         [] \<Rightarrow> False
       | c # r' \<Rightarrow> c = CHR '':'' \<and> (case eat_digits 2 r' of Some r'' \<Rightarrow> starts_space r'' | None \<Rightarrow> False))
      \<or> starts_space r)"

definition clock_at :: "nat \<Rightarrow> string \<Rightarrow> bool" where
  "clock_at n line =
     (case eat_digits n line of
        Some (c # r) \<Rightarrow> c = CHR '':'' \<and> (case eat_digits 2 r of Some r2 \<Rightarrow> clock_tail r2 | None \<Rightarrow> False)
      | _ \<Rightarrow> False)"

definition tsMatch :: "string \<Rightarrow> bool" where
  "tsMatch line = (clock_at 2 line \<or> clock_at 1 line)"

fun best_of_loop :: "string \<Rightarrow> string \<Rightarrow> nat \<Rightarrow> string list \<Rightarrow> doc list \<Rightarrow> doc list" where
  "best_of_loop relativePath date j [] batch = batch"
| "best_of_loop relativePath date j (l # ls) batch =
     (let line = trim l in
        if line = [] \<or> line = ''.'' then best_of_loop relativePath date (Suc j) ls batch
        else if tsMatch line then
          best_of_loop relativePath date (Suc j) ls (batch @ [new_doc relativePath date j line ''best_of''])
        else best_of_loop relativePath date (Suc j) ls batch)"

text \<open>\<^verbatim>\<open>lines[k]?.trim() || dflt\<close>\<close>

definition line_or :: "string list \<Rightarrow> nat \<Rightarrow> string \<Rightarrow> string" where
  "line_or lines k dflt =
     (if k < length lines \<and> trim (lines ! k) \<noteq> [] then trim (lines ! k) else dflt)"

text \<open>
  An enumerated source file: its path relative to the directory that was globbed, and what
  \<^verbatim>\<open>fs.readFileSync\<close> gives for it: \<open>None\<close> when the read throws.
\<close>

record file_info =
  fi_path :: string
  fi_content :: "string option"

datatype error = ReadError string | SqliteError | TypeError

text \<open>
  The body of the loop over the files after the read: the file's registry row is pushed on
  \<open>showsBatch\<close>, its segments on \<open>batch\<close>.
\<close>

definition ingest ::
  "string \<Rightarrow> string \<Rightarrow> string \<Rightarrow> doc list \<Rightarrow> show_row list \<Rightarrow> doc list \<times> show_row list" where
  "ingest path ty content batch showsBatch =
     (let lines = split_lines content;
          filename = basename path;
          date = getDateFromFilename filename;
          relativePath = (if ty = ''best_of'' then ''best-of/'' @ filename else path)
      in if ty = ''best_of'' then
           (let title = line_or lines 0 filename;
                ytUrl = line_or lines 1 []
            in (best_of_loop relativePath date 2 (drop 2 lines) batch,
                showsBatch @ [\<lparr>show_date = date, show_file = relativePath, show_type = ty,
                               show_youtube_url = Some ytUrl, show_custom_title = Some title\<rparr>]))
         else
           (parse_show relativePath date lines batch,
            showsBatch @ [\<lparr>show_date = date, show_file = relativePath, show_type = ty,
                           show_youtube_url = None, show_custom_title = None\<rparr>]))"

text \<open>Auxiliary notions for the parser's loop invariant: the open segment closed over the
  lines still to come, and the push after the loop.\<close>

definition close_doc :: "doc option \<Rightarrow> string list \<Rightarrow> doc list" where
  "close_doc cur ls =
     (case cur of None \<Rightarrow> [] | Some d \<Rightarrow> [d\<lparr>text_content := text_content d @ segment_text ls\<rparr>])"

definition finish_show :: "doc option \<times> doc list \<Rightarrow> doc list" where
  "finish_show r = (case r of (Some d, b) \<Rightarrow> b @ [d] | (None, b) \<Rightarrow> b)"

section \<open>The database and the index build\<close>

text \<open>
  The SQLite database: the two full-text tables, the registry \<^verbatim>\<open>shows\<close> (\<open>shows_table\<close>, primary key
  \<open>file\<close>), the link table \<^verbatim>\<open>show_links\<close> (primary key \<open>date\<close>) and the key-value table
  \<^verbatim>\<open>metadata\<close>.
\<close>

record db =
  transcripts_fts :: "doc list"
  transcripts_fts_trigram :: "doc list"
  shows_table :: "show_row list"
  show_links :: "link_row list"
  metadata :: "(string \<times> string) list"

text \<open>The prepared statements the build runs, and \<^verbatim>\<open>DELETE FROM show_links\<close>.\<close>

datatype stmt =
    InsertPorter doc
  | InsertTrigram doc
  | InsertShow show_row
  | InsertLink link_row
  | DeleteLinks

text \<open>\<^verbatim>\<open>INSERT OR REPLACE\<close> removes the row with the same primary key, then inserts.\<close>

fun exec_stmt :: "stmt \<Rightarrow> db \<Rightarrow> db" where
  "exec_stmt (InsertPorter d) s = s\<lparr>transcripts_fts := transcripts_fts s @ [d]\<rparr>"
| "exec_stmt (InsertTrigram d) s = s\<lparr>transcripts_fts_trigram := transcripts_fts_trigram s @ [d]\<rparr>"
| "exec_stmt (InsertShow r) s =
     s\<lparr>shows_table := filter (\<lambda>x. show_file x \<noteq> show_file r) (shows_table s) @ [r]\<rparr>"
| "exec_stmt (InsertLink l) s =
     s\<lparr>show_links := filter (\<lambda>x. fst x \<noteq> fst l) (show_links s) @ [l]\<rparr>"
| "exec_stmt DeleteLinks s = s\<lparr>show_links := []\<rparr>"

text \<open>
  A statement may fail (disk full, I/O error). \<open>fault\<close> is the position of the statement
  that throws in this run of the body, if any; the statements before it have run.
\<close>

fun run_stmts :: "nat option \<Rightarrow> stmt list \<Rightarrow> db \<Rightarrow> error + db" where
  "run_stmts fault [] s = Inr s"
| "run_stmts fault (st # sts) s =
     (if fault = Some 0 then Inl SqliteError
      else run_stmts (map_option (\<lambda>k. k - 1) fault) sts (exec_stmt st s))"

text \<open>
  \<^verbatim>\<open>db.transaction(body)\<close>: the body's effects are committed together, or, when a statement
  throws, rolled back: the database is then the one before the call, and the exception is
  thrown on.
\<close>

definition transaction :: "nat option \<Rightarrow> stmt list \<Rightarrow> db \<Rightarrow> error option \<times> db" where
  "transaction fault body s =
     (case run_stmts fault body s of
        Inl e \<Rightarrow> (Some e, s)
      | Inr s' \<Rightarrow> (None, s'))"

definition insertMany_body :: "doc list \<Rightarrow> show_row list \<Rightarrow> link_row list \<Rightarrow> stmt list" where
  "insertMany_body docs shws links =
     concat (map (\<lambda>d. [InsertPorter d, InsertTrigram d]) docs)
       @ map InsertShow shws @ map InsertLink links"

definition insertMany ::
  "nat option \<Rightarrow> doc list \<Rightarrow> show_row list \<Rightarrow> link_row list \<Rightarrow> db \<Rightarrow> error option \<times> db" where
  "insertMany fault docs shws links s = transaction fault (insertMany_body docs shws links) s"

text \<open>
  What the build reads from outside: the files the two globs enumerate, the metadata CSV
  (\<open>None\<close> when \<^verbatim>\<open>nrs_shows.csv\<close> does not exist), and for the \<open>k\<close>-th transaction of the
  build the statement that fails in it, if any.
\<close>

record build_env =
  show_files :: "file_info list"
  best_of_files :: "file_info list"
  csv :: "string option"
  faults :: "nat \<Rightarrow> nat option"

datatype log_entry =
    AlreadyIndexed
  | CriticalNoTranscripts
  | IndexedFiles nat
  | SyncedLinks nat
  | IndexingComplete

text \<open>
  The process state: the module variables \<^verbatim>\<open>isIndexed\<close> and \<^verbatim>\<open>indexingProgress\<close>, the
  database, the console, and \<open>observed\<close>: the database as it stands each time the build
  yields to the event loop (\<^verbatim>\<open>await new Promise(r => setImmediate(r))\<close>), which is when a
  request handler can run.
\<close>

record server =
  isIndexed :: bool
  progress_current :: nat
  progress_total :: nat
  database :: db
  console :: "log_entry list"
  observed :: "db list"

text \<open>The local variables of the loop over the files.\<close>

record loop_state =
  l_server :: server
  l_batch :: "doc list"
  l_showsBatch :: "show_row list"
  l_txn :: nat

definition allFiles :: "build_env \<Rightarrow> (file_info \<times> string) list" where
  "allFiles env =
     map (\<lambda>f. (f, ''show'')) (show_files env) @ map (\<lambda>f. (f, ''best_of'')) (best_of_files env)"

text \<open>
  The head of one turn of the loop over the files: \<^verbatim>\<open>indexingProgress.current = i + 1\<close>,
  and every fiftieth turn the build yields to the event loop.
\<close>

definition begin_file :: "nat \<Rightarrow> server \<Rightarrow> server" where
  "begin_file i srv =
     (let srv1 = srv\<lparr>progress_current := i + 1\<rparr>
      in if i mod 50 = 0 then srv1\<lparr>observed := observed srv1 @ [database srv1]\<rparr> else srv1)"

text \<open>
  The body of the loop for the file at index \<open>i\<close>: read it, ingest it, and flush the batch
  when fifty registry rows have gathered. An exception (a failed read, a failed transaction)
  is \<open>Inl\<close>, with the state at that moment.
\<close>

definition file_step ::
  "(nat \<Rightarrow> nat option) \<Rightarrow> nat \<Rightarrow> file_info \<times> string \<Rightarrow> loop_state
     \<Rightarrow> (error \<times> loop_state) + loop_state" where
  "file_step flt i ft st =
     (let f = fst ft; ty = snd ft;
          srv = begin_file i (l_server st)
      in case fi_content f of
           None \<Rightarrow> Inl (ReadError (fi_path f), st\<lparr>l_server := srv\<rparr>)
         | Some content \<Rightarrow>
             (case ingest (fi_path f) ty content (l_batch st) (l_showsBatch st) of
                (batch', showsBatch') \<Rightarrow>
                  if length showsBatch' \<ge> 50 then
                    (case insertMany (flt (l_txn st)) batch' showsBatch' [] (database srv) of
                       (Some e, d') \<Rightarrow>
                         Inl (e, \<lparr>l_server = srv\<lparr>database := d'\<rparr>, l_batch = batch',
                                  l_showsBatch = showsBatch', l_txn = Suc (l_txn st)\<rparr>)
                     | (None, d') \<Rightarrow>
                         Inr \<lparr>l_server = srv\<lparr>database := d',
                                 console := console srv @ [IndexedFiles (i + 1)]\<rparr>,
                              l_batch = [], l_showsBatch = [], l_txn = Suc (l_txn st)\<rparr>)
                  else
                    Inr \<lparr>l_server = srv, l_batch = batch', l_showsBatch = showsBatch',
                         l_txn = l_txn st\<rparr>))"

text \<open>The loop \<^verbatim>\<open>for (let i = 0; i < allFiles.length; i++)\<close>; an exception leaves it.\<close>

fun file_loop ::
  "(nat \<Rightarrow> nat option) \<Rightarrow> nat \<Rightarrow> (file_info \<times> string) list \<Rightarrow> loop_state
     \<Rightarrow> (error \<times> loop_state) + loop_state" where
  "file_loop flt i [] st = Inr st"
| "file_loop flt i (ft # rest) st =
     (case file_step flt i ft st of
        Inl x \<Rightarrow> Inl x
      | Inr st' \<Rightarrow> file_loop flt (Suc i) rest st')"

text \<open>
  The metadata CSV. One line is cut into fields by the loop with \<^verbatim>\<open>inQuotes\<close>: a quote
  toggles \<^verbatim>\<open>inQuotes\<close>, except that inside quotes two quotes in a row give one quote
  character; a comma outside quotes ends a field.
\<close>

fun csv_fields :: "string \<Rightarrow> string \<Rightarrow> bool \<Rightarrow> string list \<Rightarrow> string list" where
  "csv_fields [] current inQuotes parts = parts @ [current]"
| "csv_fields (c # cs) current inQuotes parts =
     (if c = CHR 0x22 then
        (case cs of
           d # cs' \<Rightarrow>
             if inQuotes \<and> d = CHR 0x22 then csv_fields cs' (current @ [CHR 0x22]) inQuotes parts
             else csv_fields cs current (\<not> inQuotes) parts
         | [] \<Rightarrow> csv_fields cs current (\<not> inQuotes) parts)
      else if c = CHR '','' \<and> \<not> inQuotes then csv_fields cs [] inQuotes (parts @ [current])
      else csv_fields cs (current @ [c]) inQuotes parts)"

definition parse_csv_line :: "string \<Rightarrow> string list" where
  "parse_csv_line line = csv_fields line [] False []"

text \<open>A destructured field: \<^verbatim>\<open>(x || "").replace(/"/g, "").trim()\<close>, where a missing field
  is \<^verbatim>\<open>undefined\<close>.\<close>

definition clean_field :: "string list \<Rightarrow> nat \<Rightarrow> string" where
  "clean_field row k = trim (filter (\<lambda>c. c \<noteq> CHR 0x22) (if k < length row then row ! k else []))"

definition clean_row :: "string list \<Rightarrow> link_row option" where
  "clean_row row =
     (let cleanDate = clean_field row 0;
          cleanYoutube = clean_field row 2;
          host0 = clean_field row 5;
          cleanHost = (if startsWith host0 ''http'' then [] else host0);
          cleanCustomTitle = clean_field row 6
      in if cleanDate \<noteq> [] \<and> cleanYoutube \<noteq> [] \<and> startsWith cleanYoutube ''http''
         then Some (cleanDate, cleanYoutube, cleanHost, cleanCustomTitle)
         else None)"

definition csv_rows :: "string \<Rightarrow> string list list" where
  "csv_rows csvData = filter (\<lambda>p. length p \<ge> 3) (map parse_csv_line (drop 1 (split_lines csvData)))"

definition csv_links :: "string \<Rightarrow> link_row list" where
  "csv_links csvData = List.map_filter clean_row (csv_rows csvData)"

text \<open>The transaction that replaces the link table.\<close>

definition sync_links :: "nat option \<Rightarrow> link_row list \<Rightarrow> db \<Rightarrow> error option \<times> db" where
  "sync_links fault links s = transaction fault (DeleteLinks # map InsertLink links) s"

text \<open>\<^verbatim>\<open>INSERT OR REPLACE INTO metadata (key, value) VALUES ('is_indexed_v9', 'true')\<close>\<close>

definition mark_complete :: "db \<Rightarrow> db" where
  "mark_complete s =
     s\<lparr>metadata := filter (\<lambda>kv. fst kv \<noteq> ''is_indexed_v9'') (metadata s) @ [(''is_indexed_v9'', ''true'')]\<rparr>"

text \<open>What the process start reads: \<^verbatim>\<open>row ? row.value === "true" : false\<close>.\<close>

definition marker_says_indexed :: "db \<Rightarrow> bool" where
  "marker_says_indexed s = (map_of (metadata s) ''is_indexed_v9'' = Some ''true'')"

text \<open>The part of the build after the loop over the files: the last flush, the metadata
  reconciliation and the completion marker.\<close>

definition finish_build :: "build_env \<Rightarrow> loop_state \<Rightarrow> error option \<times> server" where
  "finish_build env st =
     (let srv = l_server st;
          flush = (if l_batch st \<noteq> [] \<or> l_showsBatch st \<noteq> []
                   then (insertMany (faults env (l_txn st)) (l_batch st) (l_showsBatch st) [] (database srv),
                         Suc (l_txn st))
                   else ((None, database srv), l_txn st))
      in case flush of
           ((Some e, d), txn) \<Rightarrow> (Some e, srv\<lparr>database := d\<rparr>)
         | ((None, d), txn) \<Rightarrow>
             (case csv env of
                None \<Rightarrow>
                  (None, srv\<lparr>database := mark_complete d, isIndexed := True,
                              console := console srv @ [IndexingComplete]\<rparr>)
              | Some csvData \<Rightarrow>
                  (let links = csv_links csvData in
                     case sync_links (faults env txn) links d of
                       (Some e, d') \<Rightarrow> (Some e, srv\<lparr>database := d'\<rparr>)
                     | (None, d') \<Rightarrow>
                         (None, srv\<lparr>database := mark_complete d', isIndexed := True,
                                     console := console srv @ [SyncedLinks (length links), IndexingComplete]\<rparr>))))"

text \<open>
  \<^verbatim>\<open>buildIndex\<close>. The result is the exception that ended the build, if any, and the process
  state it leaves.
\<close>

definition buildIndex :: "build_env \<Rightarrow> server \<Rightarrow> error option \<times> server" where
  "buildIndex env s =
     (if isIndexed s then (None, s\<lparr>console := console s @ [AlreadyIndexed]\<rparr>)
      else
        (let d0 = (database s)\<lparr>transcripts_fts := [], transcripts_fts_trigram := [], shows_table := []\<rparr>;
             files = allFiles env;
             s1 = s\<lparr>database := d0,
                    observed := observed s @ [d0],
                    console := console s @ (if files = [] then [CriticalNoTranscripts] else []),
                    progress_total := length files\<rparr>
         in case file_loop (faults env) 0 files
                  \<lparr>l_server = s1, l_batch = [], l_showsBatch = [], l_txn = 0\<rparr> of
              Inl (e, st) \<Rightarrow> (Some e, l_server st)
            | Inr st \<Rightarrow> finish_build env st))"

text \<open>
  The specification's reading of a metadata row, for comparison with \<open>clean_row\<close>: its date is
  the first field and its URL the third, both with quotes removed and trimmed; a field the
  row does not have is empty. A row is admitted when its date is not empty and its URL
  starts with \<open>http\<close>.
\<close>

definition row_date :: "string list \<Rightarrow> string" where
  "row_date row = clean_field row 0"

definition row_url :: "string list \<Rightarrow> string" where
  "row_url row = clean_field row 2"

definition admitted :: "string list \<Rightarrow> bool" where
  "admitted row = (row_date row \<noteq> [] \<and> startsWith (row_url row) ''http'')"

definition link_of :: "string list \<Rightarrow> link_row" where
  "link_of row =
     (row_date row, row_url row,
      (if startsWith (clean_field row 5) ''http'' then [] else clean_field row 5),
      clean_field row 6)"

definition csv_lines :: "string \<Rightarrow> string list list" where
  "csv_lines csvData = map parse_csv_line (drop 1 (split_lines csvData))"

text \<open>The last row of a list of links that has a given date.\<close>

definition last_with_date :: "link_row list \<Rightarrow> string \<Rightarrow> link_row option" where
  "last_with_date links k =
     (let xs = filter (\<lambda>l. fst l = k) links in if xs = [] then None else Some (last xs))"

definition apply_stmts :: "stmt list \<Rightarrow> db \<Rightarrow> db" where
  "apply_stmts body s = foldl (\<lambda>s st. exec_stmt st s) s body"

definition upsert_link :: "link_row list \<Rightarrow> link_row \<Rightarrow> link_row list" where
  "upsert_link t l = filter (\<lambda>x. fst x \<noteq> fst l) t @ [l]"

text \<open>The two full-text tables hold the same rows in the same order.\<close>

definition lockstep :: "db \<Rightarrow> bool" where
  "lockstep s = (transcripts_fts s = transcripts_fts_trigram s)"

text \<open>The invariant of the build: the database is in lockstep, and so is every database
  observed since the build began (\<open>obs0\<close> are the observations of before).\<close>

definition build_inv :: "db list \<Rightarrow> server \<Rightarrow> bool" where
  "build_inv obs0 srv =
     (lockstep (database srv)
      \<and> (\<exists>new. observed srv = obs0 @ new \<and> list_all lockstep new))"

text \<open>The \<open>file\<close> column that the ingest gives to the segments of an enumerated file.\<close>

definition rel_path :: "file_info \<times> string \<Rightarrow> string" where
  "rel_path ft =
     (if snd ft = ''best_of'' then ''best-of/'' @ basename (fi_path (fst ft)) else fi_path (fst ft))"

text \<open>Every segment in the batch and in the stemmed table comes from a file of \<open>F\<close>.\<close>

definition origin :: "string set \<Rightarrow> loop_state \<Rightarrow> bool" where
  "origin F st =
     ((\<forall>d\<in>set (l_batch st). doc_file d \<in> F)
      \<and> (\<forall>d\<in>set (transcripts_fts (database (l_server st))). doc_file d \<in> F))"

section \<open>The query engine\<close>

text \<open>\<^verbatim>\<open>s.split(/\s+/)\<close>: the pieces between runs of white space; a run at either end leaves
  an empty piece there.\<close>

fun split_ws_from :: "string \<Rightarrow> bool \<Rightarrow> string \<Rightarrow> string list" where
  "split_ws_from cur inSep [] = [cur]"
| "split_ws_from cur inSep (c # cs) =
     (if isSpace c then (if inSep then split_ws_from [] True cs else cur # split_ws_from [] True cs)
      else split_ws_from (cur @ [c]) False cs)"

definition split_ws :: "string \<Rightarrow> string list" where
  "split_ws s = split_ws_from [] False s"

text \<open>
  \<^verbatim>\<open>NEIL_THESAURUS[cleanWord]\<close>. The thesaurus is an object literal, so a lookup also finds
  what it inherits from \<^verbatim>\<open>Object.prototype\<close>. The inherited names that a lower-cased word of
  \<^verbatim>\<open>\w\<close> characters can spell are \<^verbatim>\<open>constructor\<close> and \<^verbatim>\<open>__proto__\<close>; their values
  are truthy and have no \<^verbatim>\<open>join\<close>.
\<close>

datatype thesaurus_entry = Absent | Synonyms "string list" | Inherited

definition NEIL_THESAURUS :: "string \<Rightarrow> thesaurus_entry" where
  "NEIL_THESAURUS w =
     (if w = ''jorge'' \<or> w = ''george'' then Synonyms [''jorge'', ''george'']
      else if w = ''constructor'' \<or> w = ''__proto__'' then Inherited
      else Absent)"

fun map_err :: "('a \<Rightarrow> error + 'b) \<Rightarrow> 'a list \<Rightarrow> error + 'b list" where
  "map_err f [] = Inr []"
| "map_err f (x # xs) =
     (case f x of
        Inl e \<Rightarrow> Inl e
      | Inr y \<Rightarrow> (case map_err f xs of Inl e \<Rightarrow> Inl e | Inr ys \<Rightarrow> Inr (y # ys)))"

definition expand_word :: "string \<Rightarrow> error + string" where
  "expand_word word =
     (let cleanWord = filter isWordChar word in
        case NEIL_THESAURUS cleanWord of
          Synonyms xs \<Rightarrow> Inr (''('' @ join '' OR '' xs @ '')'')
        | Inherited \<Rightarrow> Inl TypeError
        | Absent \<Rightarrow> Inr (if cleanWord \<noteq> [] then cleanWord else word))"

definition is_verbatim :: "string \<Rightarrow> bool" where
  "is_verbatim query = (startsWith query [CHR 0x22] \<and> endsWith query [CHR 0x22] \<and> length query > 1)"

definition expandQuery :: "string \<Rightarrow> error + string" where
  "expandQuery query =
     (if is_verbatim query then Inr query
      else
        (let sanitized = filter (\<lambda>c. c \<noteq> CHR 0x22 \<and> c \<noteq> CHR 0x27 \<and> c \<noteq> CHR 0x60) query;
             ws = filter (\<lambda>w. length w > 0) (split_ws (toLowerCase sanitized))
         in case map_err expand_word ws of
              Inl e \<Rightarrow> Inl e
            | Inr expandedParts \<Rightarrow> Inr (join '' '' expandedParts)))"

text \<open>
  \<^verbatim>\<open>query.split(/\s+AND\s+/i)\<close>. \<open>and_sep\<close> is the match of the separator at the head of a
  string, giving what follows it.
\<close>

definition and_sep :: "string \<Rightarrow> string option" where
  "and_sep s =
     (let r = dropWhile isSpace s in
        if starts_space s \<and> map toUpperChar (take 3 r) = ''AND'' \<and> starts_space (drop 3 r)
        then Some (dropWhile isSpace (drop 3 r))
        else None)"

function split_AND_from :: "string \<Rightarrow> string \<Rightarrow> string list" where
  "split_AND_from cur [] = [cur]"
| "split_AND_from cur (c # cs) =
     (case and_sep (c # cs) of
        Some rest \<Rightarrow> cur # split_AND_from [] rest
      | None \<Rightarrow> split_AND_from (cur @ [c]) cs)"
  by pat_completeness auto
termination
proof (relation "measure (\<lambda>(cur, s). length s)")
  show "wf (measure (\<lambda>(cur, s). length s))" by simp
next
  fix cur :: string and c cs rest
  assume "and_sep (c # cs) = Some rest"
  then have sp: "starts_space (c # cs)"
    and rest: "rest = dropWhile isSpace (drop 3 (dropWhile isSpace (c # cs)))"
    by (auto simp: and_sep_def Let_def split: if_splits)
  have "length rest \<le> length (drop 3 (dropWhile isSpace (c # cs)))"
    unfolding rest by (rule length_dropWhile_le)
  also have "\<dots> \<le> length (dropWhile isSpace (c # cs))" by simp
  also have "\<dots> < length (c # cs)"
    using sp by (simp add: starts_space_def le_imp_less_Suc length_dropWhile_le)
  finally show "(([], rest), (cur, c # cs)) \<in> measure (\<lambda>(cur, s). length s)" by simp
next
  fix cur :: string and c cs
  show "((cur @ [c], cs), (cur, c # cs)) \<in> measure (\<lambda>(cur, s). length s)" by simp
qed

definition split_AND :: "string \<Rightarrow> string list" where
  "split_AND query = split_AND_from [] query"

text \<open>
  SQL \<^verbatim>\<open>LIKE\<close>: \<^verbatim>\<open>%\<close> stands for any run of characters, \<^verbatim>\<open>_\<close> for one character, and
  ASCII letters match without regard to case. The first argument is the pattern.
\<close>

fun like :: "string \<Rightarrow> string \<Rightarrow> bool" where
  "like [] s = (s = [])"
| "like (p # ps) [] = (p = CHR ''%'' \<and> like ps [])"
| "like (p # ps) (c # cs) =
     (if p = CHR ''%'' then like ps (c # cs) \<or> like (p # ps) cs
      else if p = CHR ''_'' then like ps cs
      else asciiLowerChar p = asciiLowerChar c \<and> like ps cs)"

text \<open>
  The full-text engine (SQLite FTS5) is outside the repository; the model takes it as a
  parameter: whether a \<^verbatim>\<open>MATCH\<close> expression parses, which rows of a table it matches
  (the two tables differ in their tokenizer), the relevance \<^verbatim>\<open>rank\<close> of a row (smaller
  first), the \<^verbatim>\<open>snippet\<close> function, and whether it leaves out the operands of an
  \<^verbatim>\<open>INTERSECT\<close> that follow one that selects nothing (versions of SQLite differ in this).
\<close>

datatype tbl = Transcripts_fts | Transcripts_fts_trigram

record fts_engine =
  fts_ok :: "string \<Rightarrow> bool"
  fts_match :: "tbl \<Rightarrow> string \<Rightarrow> doc \<Rightarrow> bool"
  fts_rank :: "doc list \<Rightarrow> string \<Rightarrow> doc \<Rightarrow> int"
  fts_snippet :: "tbl \<Rightarrow> string \<Rightarrow> doc \<Rightarrow> string"
  fts_skips_after_empty :: bool

definition table_of :: "tbl \<Rightarrow> db \<Rightarrow> doc list" where
  "table_of t s = (case t of Transcripts_fts \<Rightarrow> transcripts_fts s
                   | Transcripts_fts_trigram \<Rightarrow> transcripts_fts_trigram s)"

text \<open>
  The statement that \<^verbatim>\<open>getSearchResults\<close> prepares, by its parameters: the table, the
  expression bound to the outer \<^verbatim>\<open>MATCH\<close>, the expressions bound to the \<^verbatim>\<open>INTERSECT\<close>
  sub-selects (none when \<^verbatim>\<open>filterSql\<close> is empty), the type, the \<^verbatim>\<open>years\<close> parameter and
  the offset. The limit is always 100.
\<close>

record sql_query =
  q_table :: tbl
  q_match :: string
  q_intersect :: "string list"
  q_type :: string
  q_years :: "string option"
  q_offset :: nat

text \<open>A result row: the columns of the segment, \<^verbatim>\<open>highlight\<close>, and the joined columns.\<close>

record hit =
  hit_doc :: doc
  highlight :: string
  youtube_url :: "string option"
  host :: "string option"
  custom_title :: "string option"

text \<open>\<^verbatim>\<open>AND (t.date LIKE ? OR ...)\<close> with one \<^verbatim>\<open>y%\<close> per comma-separated year, added when
  \<^verbatim>\<open>yearsParam\<close> is a non-empty string.\<close>

definition year_filter :: "string option \<Rightarrow> doc \<Rightarrow> bool" where
  "year_filter yearsParam d =
     (case yearsParam of
        None \<Rightarrow> True
      | Some ys \<Rightarrow>
          if ys = [] then True
          else list_ex (\<lambda>y. like (y @ ''%'') (doc_date d)) (split_on CHR '','' ys))"

text \<open>\<^verbatim>\<open>t.file IN (SELECT file FROM t WHERE t MATCH ? INTERSECT ...)\<close>: for every
  sub-select, some row of the table with the same file matches its expression.\<close>

definition file_in_all :: "fts_engine \<Rightarrow> tbl \<Rightarrow> doc list \<Rightarrow> string list \<Rightarrow> doc \<Rightarrow> bool" where
  "file_in_all eng t rows ps d =
     list_all (\<lambda>p. list_ex (\<lambda>d'. doc_file d' = doc_file d \<and> fts_match eng t p d') rows) ps"

text \<open>The two left joins and the \<^verbatim>\<open>COALESCE\<close> columns; both join keys are primary keys.\<close>

definition decorate :: "fts_engine \<Rightarrow> db \<Rightarrow> sql_query \<Rightarrow> doc \<Rightarrow> hit" where
  "decorate eng s q d =
     (let l = find (\<lambda>l. fst l = doc_date d) (show_links s);
          r = find (\<lambda>r. show_file r = doc_file d) (shows_table s)
      in \<lparr>hit_doc = d,
          highlight = fts_snippet eng (q_table q) (q_match q) d,
          youtube_url =
            (case l of Some (_, y, _, _) \<Rightarrow> Some y
             | None \<Rightarrow> (case r of Some x \<Rightarrow> show_youtube_url x | None \<Rightarrow> None)),
          host = (case l of Some (_, _, h, _) \<Rightarrow> Some h | None \<Rightarrow> None),
          custom_title =
            (case l of Some (_, _, _, c) \<Rightarrow> Some c
             | None \<Rightarrow> (case r of Some x \<Rightarrow> show_custom_title x | None \<Rightarrow> None))\<rparr>)"

text \<open>The rows that satisfy the \<^verbatim>\<open>WHERE\<close> clause, in rank order, before \<^verbatim>\<open>LIMIT\<close> and
  \<^verbatim>\<open>OFFSET\<close>.\<close>

definition selected_rows :: "fts_engine \<Rightarrow> db \<Rightarrow> sql_query \<Rightarrow> doc list" where
  "selected_rows eng s q =
     (let rows = table_of (q_table q) s in
        sort_key (fts_rank eng rows (q_match q))
          (filter (\<lambda>d. fts_match eng (q_table q) (q_match q) d
                      \<and> year_filter (q_years q) d
                      \<and> file_in_all eng (q_table q) rows (q_intersect q) d
                      \<and> doc_type d = q_type q) rows))"

text \<open>
  Running the statement. A malformed outer \<^verbatim>\<open>MATCH\<close> expression makes the statement throw.
  SQLite evaluates the \<^verbatim>\<open>IN\<close> sub-select when the first row that has passed the
  \<^verbatim>\<open>MATCH\<close> constraint reaches it, before the other terms of the \<^verbatim>\<open>WHERE\<close> clause;
  with no such row it is never evaluated. Evaluating it takes the operands of the
  \<^verbatim>\<open>INTERSECT\<close> from the left, and a malformed expression throws.
\<close>

fun operands_throw :: "fts_engine \<Rightarrow> tbl \<Rightarrow> doc list \<Rightarrow> string list \<Rightarrow> bool" where
  "operands_throw eng t rows [] = False"
| "operands_throw eng t rows (p # ps) =
     (if \<not> fts_ok eng p then True
      else if fts_skips_after_empty eng \<and> \<not> list_ex (fts_match eng t p) rows then False
      else operands_throw eng t rows ps)"

definition exec_query :: "fts_engine \<Rightarrow> db \<Rightarrow> sql_query \<Rightarrow> error + hit list" where
  "exec_query eng s q =
     (if \<not> fts_ok eng (q_match q) then Inl SqliteError
      else if list_ex (fts_match eng (q_table q) (q_match q)) (table_of (q_table q) s)
              \<and> operands_throw eng (q_table q) (table_of (q_table q) s) (q_intersect q)
      then Inl SqliteError
      else Inr (map (decorate eng s q) (take 100 (drop (q_offset q) (selected_rows eng s q)))))"

text \<open>The request: \<^verbatim>\<open>req.query.q\<close>, \<^verbatim>\<open>years\<close>, \<^verbatim>\<open>type\<close> and the parsed \<^verbatim>\<open>offset\<close>.\<close>

record request =
  r_q :: "string option"
  r_years :: "string option"
  r_type :: "string option"
  r_offset :: nat

text \<open>
  The closure \<^verbatim>\<open>getSearchResults(tableName, queryString, searchParams, currentOffset)\<close>, in
  two steps. First it assembles the statement and its parameters; for an AND search the
  request's query is split again and each part expanded, which can throw. Then it runs the
  statement. It returns the statement it ran, if it got that far, and the rows or the
  exception.
\<close>

definition or_group :: "string list \<Rightarrow> string" where
  "or_group expandedParts = ''('' @ join '' OR '' expandedParts @ '')''"

definition prepare_search ::
  "request \<Rightarrow> string \<Rightarrow> bool \<Rightarrow> tbl \<Rightarrow> string \<Rightarrow> nat \<Rightarrow> error + sql_query" where
  "prepare_search req query isAndSearch tableName queryString currentOffset =
     (let typeValue = (case r_type req of None \<Rightarrow> ''show'' | Some t \<Rightarrow> if t = [] then ''show'' else t) in
      if isAndSearch then
        (case map_err (\<lambda>p. expandQuery (trim p)) (split_AND query) of
           Inl e \<Rightarrow> Inl e
         | Inr expandedParts \<Rightarrow>
             Inr \<lparr>q_table = tableName, q_match = or_group expandedParts,
                  q_intersect = expandedParts, q_type = typeValue,
                  q_years = r_years req, q_offset = currentOffset\<rparr>)
      else
        Inr \<lparr>q_table = tableName, q_match = queryString, q_intersect = [],
             q_type = typeValue, q_years = r_years req, q_offset = currentOffset\<rparr>)"

definition getSearchResults ::
  "fts_engine \<Rightarrow> db \<Rightarrow> request \<Rightarrow> string \<Rightarrow> bool \<Rightarrow> tbl \<Rightarrow> string \<Rightarrow> nat
     \<Rightarrow> sql_query list \<times> (error + hit list)" where
  "getSearchResults eng s req query isAndSearch tableName queryString currentOffset =
     (case prepare_search req query isAndSearch tableName queryString currentOffset of
        Inl e \<Rightarrow> ([], Inl e)
      | Inr q \<Rightarrow> ([q], exec_query eng s q))"

text \<open>
  Context enrichment: the file is read again and the lines from the hit's line to six lines
  further replace the snippet; when the read throws, the snippet is the indexed text. The
  file system is a function from the relative path to the content.
\<close>

definition enrich :: "(string \<Rightarrow> string option) \<Rightarrow> hit \<Rightarrow> hit \<times> string" where
  "enrich fs h =
     (case fs (doc_file (hit_doc h)) of
        None \<Rightarrow> (h, text_content (hit_doc h))
      | Some content \<Rightarrow>
          (let lines = split_on CHR 0x0A content;
               startLine = doc_line (hit_doc h);
               endLine = min (length lines - 1) (doc_line (hit_doc h) + 6)
           in (h, join [CHR 0x0A] (take (endLine + 1 - startLine) (drop startLine lines)))))"

text \<open>\<^verbatim>\<open>expandedQuery.replace(/["()]/g, "").trim()\<close> and
  \<^verbatim>\<open>expandedQuery.toUpperCase().includes(" AND ")\<close>\<close>

definition cleanedQuery :: "string \<Rightarrow> string" where
  "cleanedQuery expandedQuery =
     trim (filter (\<lambda>c. c \<noteq> CHR 0x22 \<and> c \<noteq> CHR ''('' \<and> c \<noteq> CHR '')'') expandedQuery)"

definition is_and_search :: "string \<Rightarrow> bool" where
  "is_and_search expandedQuery = includesStr (toUpperCase expandedQuery) '' AND ''"

datatype response =
    Indexing503 nat nat
  | Error500 error
  | Json "(hit \<times> string) list"

text \<open>
  The handler of \<^verbatim>\<open>GET /api/search\<close>. It returns the response and the statements that were
  run against the index, in order.
\<close>

definition search ::
  "fts_engine \<Rightarrow> (string \<Rightarrow> string option) \<Rightarrow> server \<Rightarrow> request \<Rightarrow> response \<times> sql_query list" where
  "search eng fs srv req =
     (if \<not> isIndexed srv then (Indexing503 (progress_current srv) (progress_total srv), [])
      else case r_q req of
        None \<Rightarrow> (Json [], [])
      | Some query \<Rightarrow>
          if trim query = [] then (Json [], [])
          else
            (let isVerbatim = is_verbatim query in
             case expandQuery query of
               Inl e \<Rightarrow> (Error500 e, [])
             | Inr expandedQuery \<Rightarrow>
                 (if cleanedQuery expandedQuery = [] then (Json [], [])
                     else
                       (let isAndSearch = is_and_search expandedQuery in
                        case getSearchResults eng (database srv) req query isAndSearch
                               Transcripts_fts expandedQuery (r_offset req) of
                          (stmts, Inl ftsError) \<Rightarrow> (Json [], stmts)
                        | (stmts, Inr results) \<Rightarrow>
                            if \<not> isVerbatim \<and> results = [] \<and> length query \<ge> 3 then
                              (case getSearchResults eng (database srv) req query isAndSearch
                                      Transcripts_fts_trigram expandedQuery (r_offset req) of
                                 (stmts', Inl err) \<Rightarrow> (Error500 err, stmts @ stmts')
                               | (stmts', Inr fuzzyResults) \<Rightarrow>
                                   (Json (map (enrich fs) fuzzyResults), stmts @ stmts'))
                            else (Json (map (enrich fs) results), stmts)))))"

definition empty_index_response :: "request \<Rightarrow> response" where
  "empty_index_response req =
     (case r_q req of
        None \<Rightarrow> Json []
      | Some query \<Rightarrow>
          if trim query = [] then Json []
          else (case expandQuery query of Inl e \<Rightarrow> Error500 e | Inr x \<Rightarrow> Json []))"

definition json_rows :: "response \<Rightarrow> (hit \<times> string) list" where
  "json_rows r = (case r of Json out \<Rightarrow> out | _ \<Rightarrow> [])"

definition ran_on :: "tbl \<Rightarrow> sql_query list \<Rightarrow> bool" where
  "ran_on t stmts = list_ex (\<lambda>st. q_table st = t) stmts"

text \<open>The exact index was asked for the page at this offset and gave the empty page.\<close>

definition exact_page_empty :: "fts_engine \<Rightarrow> db \<Rightarrow> nat \<Rightarrow> sql_query list \<Rightarrow> bool" where
  "exact_page_empty eng s off stmts =
     list_ex (\<lambda>st. q_table st = Transcripts_fts \<and> q_offset st = off \<and> exec_query eng s st = Inr []) stmts"

section \<open>A small engine for the examples\<close>

text \<open>
  A stand-in for FTS5 on the expressions the examples use: words, groups of words joined by
  \<^verbatim>\<open>OR\<close>, and parentheses around the whole. An expression parses when it has a word, only
  word characters, blanks and parentheses, and its parentheses are balanced. A group matches
  a row when each of its words occurs in the row's text: as a whole token in the stemmed
  table, as a substring of at least three characters in the trigram table. Rows are not
  reordered, the snippet is the text, and every operand of an \<^verbatim>\<open>INTERSECT\<close> is
  evaluated.
\<close>

fun balanced :: "nat \<Rightarrow> string \<Rightarrow> bool" where
  "balanced n [] = (n = 0)"
| "balanced n (c # cs) =
     (if c = CHR ''('' then balanced (Suc n) cs
      else if c = CHR '')'' then (n > 0 \<and> balanced (n - 1) cs)
      else balanced n cs)"

definition demo_words :: "string \<Rightarrow> string list" where
  "demo_words e =
     filter (\<lambda>w. w \<noteq> []) (split_ws (filter (\<lambda>c. c \<noteq> CHR ''('' \<and> c \<noteq> CHR '')'') e))"

fun demo_groups :: "string list \<Rightarrow> string list \<Rightarrow> string list list" where
  "demo_groups cur [] = [cur]"
| "demo_groups cur (w # ws) =
     (if w = ''OR'' then cur # demo_groups [] ws else demo_groups (cur @ [w]) ws)"

definition demo_ok :: "string \<Rightarrow> bool" where
  "demo_ok e =
     (balanced 0 e
      \<and> list_all (\<lambda>c. isWordChar c \<or> c = CHR '' '' \<or> c = CHR ''('' \<or> c = CHR '')'') e
      \<and> list_all (\<lambda>g. g \<noteq> []) (demo_groups [] (demo_words e)))"

definition demo_has :: "tbl \<Rightarrow> string \<Rightarrow> doc \<Rightarrow> bool" where
  "demo_has t w d =
     (case t of
        Transcripts_fts \<Rightarrow> toLowerCase w \<in> set (split_ws (toLowerCase (text_content d)))
      | Transcripts_fts_trigram \<Rightarrow>
          length w \<ge> 3 \<and> includesStr (toLowerCase (text_content d)) (toLowerCase w))"

definition demo_match :: "tbl \<Rightarrow> string \<Rightarrow> doc \<Rightarrow> bool" where
  "demo_match t e d = list_ex (\<lambda>g. list_all (\<lambda>w. demo_has t w d) g) (demo_groups [] (demo_words e))"

definition demo_engine :: fts_engine where
  "demo_engine =
     \<lparr>fts_ok = demo_ok, fts_match = demo_match, fts_rank = (\<lambda>rows e d. 0),
      fts_snippet = (\<lambda>t e d. text_content d), fts_skips_after_empty = False\<rparr>"

text \<open>The same engine, leaving out the operands after an empty one.\<close>

definition demo_engine_skipping :: fts_engine where
  "demo_engine_skipping = demo_engine\<lparr>fts_skips_after_empty := True\<rparr>"

definition empty_db :: db where
  "empty_db = \<lparr>transcripts_fts = [], transcripts_fts_trigram = [], shows_table = [],
               show_links = [], metadata = []\<rparr>"

definition fresh_server :: server where
  "fresh_server = \<lparr>isIndexed = False, progress_current = 0, progress_total = 0,
                   database = empty_db, console = [], observed = []\<rparr>"

definition no_faults :: "nat \<Rightarrow> nat option" where
  "no_faults k = None"

definition no_files :: "string \<Rightarrow> string option" where
  "no_files p = None"

definition demo_csv :: string where
  "demo_csv = concat
     [''date,init,youtube,notes,info,host,title'', [CHR 0x0A],
      ''1999-01-02,x,http://a.example/1'', [CHR 0x0A],
      ''1999-01-03,x,no-link'', [CHR 0x0A],
      '',x,http://a.example/2'', [CHR 0x0A],
      ''1999-01-02,y,https://b.example/3,,,Neil,Title'', [CHR 0x0A]]"

definition demo_links_db :: db where
  "demo_links_db = empty_db\<lparr>show_links := [(''1998-05-05'', ''http://old.example'', [], [])]\<rparr>"

definition demo_file_a :: file_info where
  "demo_file_a =
     \<lparr>fi_path = ''1999/neil-rogers-19990102.txt'',
      fi_content = Some (join [CHR 0x0A]
        [''[00:00:01 --> 00:00:05]'', ''Rick called in'', ''[00:00:05 --> 00:00:09]'', ''cold suds'', []])\<rparr>"

definition demo_file_b :: file_info where
  "demo_file_b =
     \<lparr>fi_path = ''1999/neil-rogers-19990103.txt'',
      fi_content = Some (join [CHR 0x0A] [''[00:00:01 --> 00:00:04]'', ''Rick again''])\<rparr>"

definition demo_file_unreadable :: file_info where
  "demo_file_unreadable = \<lparr>fi_path = ''1999/neil-rogers-19990104.txt'', fi_content = None\<rparr>"

definition demo_env :: build_env where
  "demo_env = \<lparr>show_files = [demo_file_a, demo_file_b], best_of_files = [], csv = None,
               faults = no_faults\<rparr>"

definition demo_env_fault :: build_env where
  "demo_env_fault = \<lparr>show_files = [demo_file_a, demo_file_b], best_of_files = [], csv = None,
               faults = (\<lambda>k. if k = 0 then Some 1 else None)\<rparr>"

definition demo_env_unreadable :: build_env where
  "demo_env_unreadable =
     \<lparr>show_files = [demo_file_a, demo_file_unreadable, demo_file_b], best_of_files = [],
      csv = None, faults = no_faults\<rparr>"

definition demo_env_empty :: build_env where
  "demo_env_empty = \<lparr>show_files = [], best_of_files = [], csv = Some demo_csv, faults = no_faults\<rparr>"

text \<open>The index that the build makes of the two demo files.\<close>

definition demo_docs :: "doc list" where
  "demo_docs =
     [new_doc ''1999/neil-rogers-19990102.txt'' ''1999-01-02'' 0 '' Rick called in'' ''show'',
      new_doc ''1999/neil-rogers-19990102.txt'' ''1999-01-02'' 2 '' cold suds'' ''show'',
      new_doc ''1999/neil-rogers-19990103.txt'' ''1999-01-03'' 0 '' Rick again'' ''show'']"

definition demo_server :: server where
  "demo_server =
     fresh_server\<lparr>isIndexed := True,
       database := empty_db\<lparr>transcripts_fts := demo_docs, transcripts_fts_trigram := demo_docs\<rparr>\<rparr>"

text \<open>A corpus for pagination: one segment with the word \<open>suds\<close>, and 101 segments with
  \<open>sudsy\<close>, in both tables.\<close>

definition demo_many_docs :: "doc list" where
  "demo_many_docs =
     new_doc ''a.txt'' ''1999-01-02'' 0 '' suds'' ''show''
       # map (\<lambda>k. new_doc ''b.txt'' ''1999-01-03'' k '' sudsy'' ''show'') [1..<102]"

definition demo_many_server :: server where
  "demo_many_server =
     fresh_server\<lparr>isIndexed := True,
       database := empty_db\<lparr>transcripts_fts := demo_many_docs,
                             transcripts_fts_trigram := demo_many_docs\<rparr>\<rparr>"

definition demo_request :: "string \<Rightarrow> nat \<Rightarrow> request" where
  "demo_request query off = \<lparr>r_q = Some query, r_years = None, r_type = None, r_offset = off\<rparr>"

definition demo_and_rows :: "(hit \<times> string) list" where
  "demo_and_rows =
     json_rows (fst (search demo_engine no_files demo_server (demo_request ''Rick AND Suds'' 0)))"

definition demo_quoted :: string where
  "demo_quoted = [CHR 0x22] @ ''rock n roll'' @ [CHR 0x22]"

definition demo_quoted_and :: string where
  "demo_quoted_and = [CHR 0x22] @ ''jorge AND suds'' @ [CHR 0x22]"

section \<open>Evaluation of the character functions\<close>

text \<open>The same functions on the bits of the character, for evaluation.\<close>

lemma isSpace_code [code]:
  "isSpace (Char b0 b1 b2 b3 b4 b5 b6 b7) =
     ((\<not> b7 \<and> \<not> b6 \<and> \<not> b5 \<and> \<not> b4 \<and> b3 \<and> (b0 \<or> b1 \<or> b2) \<and> \<not> (b2 \<and> b1))
      \<or> (\<not> b6 \<and> b5 \<and> \<not> b4 \<and> \<not> b3 \<and> \<not> b2 \<and> \<not> b1 \<and> \<not> b0))"
  by (cases b0; cases b1; cases b2; cases b3; cases b4; cases b5; cases b6; cases b7)
    (simp_all add: isSpace_def)

lemma isDigit_code [code]:
  "isDigit (Char b0 b1 b2 b3 b4 b5 b6 b7) =
     (\<not> b7 \<and> \<not> b6 \<and> b5 \<and> b4 \<and> \<not> (b3 \<and> (b2 \<or> b1)))"
  by (cases b0; cases b1; cases b2; cases b3; cases b4; cases b5; cases b6; cases b7)
    (simp_all add: isDigit_def)

lemma isWordChar_code [code]:
  "isWordChar (Char b0 b1 b2 b3 b4 b5 b6 b7) =
     (\<not> b7 \<and>
      ((\<not> b6 \<and> b5 \<and> b4 \<and> \<not> (b3 \<and> (b2 \<or> b1)))
       \<or> (b6 \<and> (b0 \<or> b1 \<or> b2 \<or> b3 \<or> b4) \<and> \<not> (b4 \<and> b3 \<and> (b2 \<or> (b1 \<and> b0))))
       \<or> (b6 \<and> \<not> b5 \<and> b4 \<and> b3 \<and> b2 \<and> b1 \<and> b0)))"
  by (cases b0; cases b1; cases b2; cases b3; cases b4; cases b5; cases b6; cases b7)
    (simp_all add: isWordChar_def)

lemma toLowerChar_code [code]:
  "toLowerChar (Char b0 b1 b2 b3 b4 b5 b6 b7) =
     (if b6 \<and> \<not> b5
         \<and> (if b7 then \<not> (b0 \<and> b1 \<and> b2 \<and> b4)
             else (b0 \<or> b1 \<or> b2 \<or> b3 \<or> b4) \<and> \<not> (b4 \<and> b3 \<and> (b2 \<or> (b1 \<and> b0))))
      then Char b0 b1 b2 b3 b4 True b6 b7 else Char b0 b1 b2 b3 b4 b5 b6 b7)"
  by (cases b0; cases b1; cases b2; cases b3; cases b4; cases b5; cases b6; cases b7)
    (simp_all add: toLowerChar_def isAsciiUpper_def isLatin1Upper_def with_bit32_def)

lemma toUpperChar_code [code]:
  "toUpperChar (Char b0 b1 b2 b3 b4 b5 b6 b7) =
     (if b6 \<and> b5
         \<and> (if b7 then \<not> (b0 \<and> b1 \<and> b2 \<and> b4)
             else (b0 \<or> b1 \<or> b2 \<or> b3 \<or> b4) \<and> \<not> (b4 \<and> b3 \<and> (b2 \<or> (b1 \<and> b0))))
      then Char b0 b1 b2 b3 b4 False b6 b7 else Char b0 b1 b2 b3 b4 b5 b6 b7)"
  by (cases b0; cases b1; cases b2; cases b3; cases b4; cases b5; cases b6; cases b7)
    (simp_all add: toUpperChar_def isAsciiLower_def isLatin1Lower_def with_bit32_def)

lemma asciiLowerChar_code [code]:
  "asciiLowerChar (Char b0 b1 b2 b3 b4 b5 b6 b7) =
     (if b6 \<and> \<not> b5 \<and> \<not> b7 \<and> (b0 \<or> b1 \<or> b2 \<or> b3 \<or> b4) \<and> \<not> (b4 \<and> b3 \<and> (b2 \<or> (b1 \<and> b0)))
      then Char b0 b1 b2 b3 b4 True b6 b7 else Char b0 b1 b2 b3 b4 b5 b6 b7)"
  by (cases b0; cases b1; cases b2; cases b3; cases b4; cases b5; cases b6; cases b7)
    (simp_all add: asciiLowerChar_def isAsciiUpper_def with_bit32_def)

lemma prefixed_date_SomeD:
  assumes "prefixed_date tok s = Some d"
  shows "\<exists>post. s = tok @ d @ post \<and> length d = 8 \<and> list_all isDigit d"
proof -
  from assms have st: "take (length tok) s = tok"
    and d: "d = take 8 (drop (length tok) s)" and len: "length d = 8" and dig: "list_all isDigit d"
    by (auto simp: prefixed_date_def startsWith_def Let_def split: if_splits)
  have "s = take (length tok) s @ take 8 (drop (length tok) s) @ drop 8 (drop (length tok) s)"
    by (simp only: append_take_drop_id)
  with st d have "s = tok @ d @ drop 8 (drop (length tok) s)" by simp
  with len dig show ?thesis by blast
qed

lemma prefixed_date_app:
  "length d = 8 \<Longrightarrow> list_all isDigit d \<Longrightarrow> prefixed_date tok (tok @ d @ post) = Some d"
  by (simp add: prefixed_date_def startsWith_def)

lemma host_date_at_SomeD:
  assumes "host_date_at s = Some d"
  shows "host_date_occurs s [] d"
proof -
  from assms consider "prefixed_date ''rogers-'' s = Some d" | "prefixed_date ''lassiter-'' s = Some d"
    by (auto simp: host_date_at_def split: option.splits)
  then show ?thesis
  proof cases
    case 1
    from prefixed_date_SomeD[OF 1] obtain post where
      "s = ''rogers-'' @ d @ post" "length d = 8" "list_all isDigit d" by blast
    then have "s = [] @ ''rogers'' @ ''-'' @ d @ post" by simp
    with \<open>length d = 8\<close> \<open>list_all isDigit d\<close> show ?thesis
      unfolding host_date_occurs_def by blast
  next
    case 2
    from prefixed_date_SomeD[OF 2] obtain post where
      "s = ''lassiter-'' @ d @ post" "length d = 8" "list_all isDigit d" by blast
    then have "s = [] @ ''lassiter'' @ ''-'' @ d @ post" by simp
    with \<open>length d = 8\<close> \<open>list_all isDigit d\<close> show ?thesis
      unfolding host_date_occurs_def by blast
  qed
qed

lemma host_date_at_occurs:
  assumes "host_date_occurs s [] d"
  shows "host_date_at s = Some d"
proof -
  from assms obtain tok post where s: "s = tok @ ''-'' @ d @ post"
    and tok: "tok = ''rogers'' \<or> tok = ''lassiter''"
    and len: "length d = 8" and dig: "list_all isDigit d"
    unfolding host_date_occurs_def by auto
  from tok show ?thesis
  proof
    assume "tok = ''rogers''"
    with s have "s = ''rogers-'' @ d @ post" by simp
    then show ?thesis
      using prefixed_date_app[OF len dig, of "''rogers-''" post] by (simp add: host_date_at_def)
  next
    assume "tok = ''lassiter''"
    with s have s': "s = ''lassiter-'' @ d @ post" by simp
    have "prefixed_date ''rogers-'' s = None"
      unfolding s' by (simp add: prefixed_date_def startsWith_def)
    moreover have "prefixed_date ''lassiter-'' s = Some d"
      unfolding s' by (rule prefixed_date_app[OF len dig])
    ultimately show ?thesis by (simp add: host_date_at_def)
  qed
qed

lemma host_date_occurs_Cons:
  "host_date_occurs (c # cs) (c' # pre) d \<longleftrightarrow> c' = c \<and> host_date_occurs cs pre d"
  unfolding host_date_occurs_def by auto

lemma host_date_occurs_Nil [simp]: "\<not> host_date_occurs [] pre d"
  unfolding host_date_occurs_def by auto

lemma host_date_at_Nil [simp]: "host_date_at [] = None"
  by (simp add: host_date_at_def prefixed_date_def startsWith_def)

lemma host_date_match_None_iff: "host_date_match f = None \<longleftrightarrow> \<not> has_host_date f"
proof (induction f)
  case Nil
  show ?case by (simp add: has_host_date_def)
next
  case (Cons c cs)
  show ?case
  proof (cases "host_date_at (c # cs)")
    case (Some d)
    then have "has_host_date (c # cs)"
      using host_date_at_SomeD has_host_date_def by blast
    with Some show ?thesis by simp
  next
    case None
    have "has_host_date (c # cs) \<longleftrightarrow> has_host_date cs"
    proof
      assume "has_host_date (c # cs)"
      then obtain pre d where occ: "host_date_occurs (c # cs) pre d"
        unfolding has_host_date_def by blast
      show "has_host_date cs"
      proof (cases pre)
        case Nil
        with occ None host_date_at_occurs show ?thesis by fastforce
      next
        case (Cons c' pre')
        with occ have "host_date_occurs cs pre' d" by (simp add: host_date_occurs_Cons)
        then show ?thesis unfolding has_host_date_def by blast
      qed
    next
      assume "has_host_date cs"
      then obtain pre d where "host_date_occurs cs pre d"
        unfolding has_host_date_def by blast
      then have "host_date_occurs (c # cs) (c # pre) d" by (simp add: host_date_occurs_Cons)
      then show "has_host_date (c # cs)" unfolding has_host_date_def by blast
    qed
    with None Cons.IH show ?thesis by simp
  qed
qed

lemma host_date_match_leftmost:
  "host_date_match f = Some d \<Longrightarrow>
     \<exists>pre. host_date_occurs f pre d \<and>
       (\<forall>pre' d'. host_date_occurs f pre' d' \<longrightarrow> length pre \<le> length pre')"
proof (induction f)
  case Nil
  then show ?case by simp
next
  case (Cons c cs)
  show ?case
  proof (cases "host_date_at (c # cs)")
    case (Some d0)
    with Cons.prems have "d0 = d" by simp
    with Some have "host_date_occurs (c # cs) [] d" by (simp add: host_date_at_SomeD)
    then show ?thesis by fastforce
  next
    case None
    with Cons.prems have "host_date_match cs = Some d" by simp
    from Cons.IH[OF this] obtain pre where occ: "host_date_occurs cs pre d"
      and least: "\<And>pre' d'. host_date_occurs cs pre' d' \<Longrightarrow> length pre \<le> length pre'"
      by blast
    have "host_date_occurs (c # cs) (c # pre) d"
      using occ by (simp add: host_date_occurs_Cons)
    moreover have "length (c # pre) \<le> length pre'" if o': "host_date_occurs (c # cs) pre' d'" for pre' d'
    proof (cases pre')
      case Nil
      with o' None host_date_at_occurs show ?thesis by fastforce
    next
      case (Cons c' p')
      with o' have "host_date_occurs cs p' d'" by (simp add: host_date_occurs_Cons)
      from least[OF this] Cons show ?thesis by simp
    qed
    ultimately show ?thesis by blast
  qed
qed

lemma year_match_Some_iff:
  "year_match f = Some y \<longleftrightarrow> (\<exists>rest. f = y @ rest \<and> length y = 4 \<and> list_all isDigit y)"
proof
  assume "year_match f = Some y"
  then have y: "y = take 4 f" "length y = 4" "list_all isDigit y"
    by (auto simp: year_match_def Let_def split: if_splits)
  have "f = take 4 f @ drop 4 f" by simp
  with y show "\<exists>rest. f = y @ rest \<and> length y = 4 \<and> list_all isDigit y" by metis
next
  assume "\<exists>rest. f = y @ rest \<and> length y = 4 \<and> list_all isDigit y"
  then show "year_match f = Some y" by (auto simp: year_match_def)
qed

section \<open>The show parser produces the segments between markers\<close>

lemma isMarker_Nil [simp]: "\<not> isMarker []"
  by (simp add: isMarker_def startsWith_def)

lemma marker_indices_Nil [simp]: "marker_indices [] = []"
  by (simp add: marker_indices_def)

lemma marker_indices_Cons:
  "marker_indices (l # ls) =
     (if isMarker (trim l) then [0] else []) @ map Suc (marker_indices ls)"
proof -
  have "[0..<length (l # ls)] = 0 # map Suc [0..<length ls]"
    by (simp add: upt_conv_Cons map_Suc_upt del: upt_Suc)
  then show ?thesis
    by (simp add: marker_indices_def filter_map comp_def)
qed

lemma segment_text_Nil [simp]: "segment_text [] = []"
  by (simp add: segment_text_def)

lemma segment_text_Cons:
  "segment_text (l # ls) =
     (if isMarker (trim l) then []
      else (if trim l = [] then [] else '' '' @ trim l) @ segment_text ls)"
  by (simp add: segment_text_def)

lemma close_doc_blank:
  "trim l = [] \<Longrightarrow> close_doc cur (l # ls) = close_doc cur ls"
  by (cases cur) (simp_all add: close_doc_def segment_text_Cons)

lemma close_doc_marker:
  "isMarker (trim l) \<Longrightarrow> close_doc cur (l # ls) = (case cur of None \<Rightarrow> [] | Some d \<Rightarrow> [d])"
  by (cases cur) (simp_all add: close_doc_def segment_text_Cons)

lemma close_doc_text:
  "\<not> isMarker (trim l) \<Longrightarrow> trim l \<noteq> [] \<Longrightarrow>
     close_doc (Some d) (l # ls) =
     close_doc (Some (d\<lparr>text_content := text_content d @ '' '' @ trim l\<rparr>)) ls"
  by (simp add: close_doc_def segment_text_Cons)

lemma close_doc_None [simp]: "close_doc None ls = []"
  by (simp add: close_doc_def)

lemma close_doc_new:
  "close_doc (Some (new_doc rel date j [] ty)) ls = [new_doc rel date j (segment_text ls) ty]"
  by (simp add: close_doc_def new_doc_def)

lemma show_loop_segments:
  "finish_show (show_loop rel date j ls cur batch) =
     batch @ close_doc cur ls
       @ map (\<lambda>k. new_doc rel date (j + k) (segment_text (drop (Suc k) ls)) ''show'')
           (marker_indices ls)"
proof (induction ls arbitrary: j cur batch)
  case Nil
  show ?case by (cases cur) (simp_all add: finish_show_def close_doc_def)
next
  case (Cons l ls)
  show ?case
  proof (cases "trim l = []")
    case True
    then show ?thesis
      by (simp add: Cons.IH marker_indices_Cons close_doc_blank comp_def)
  next
    case nonblank: False
    show ?thesis
    proof (cases "isMarker (trim l)")
      case True
      then show ?thesis using nonblank
        by (cases cur)
          (simp_all add: Cons.IH marker_indices_Cons close_doc_marker close_doc_new comp_def)
    next
      case False
      then show ?thesis using nonblank
        by (cases cur)
          (simp_all add: Cons.IH marker_indices_Cons close_doc_text comp_def)
    qed
  qed
qed

lemma parse_show_eq:
  "parse_show rel date lines batch = batch @ show_segments rel date lines"
  using show_loop_segments[of rel date 0 lines None batch]
  by (simp add: parse_show_def finish_show_def show_segments_def)

lemma marker_indices_prefix:
  "\<forall>l\<in>set pre. \<not> isMarker (trim l) \<Longrightarrow>
     marker_indices (pre @ rest) = map (\<lambda>k. length pre + k) (marker_indices rest)"
proof (induction pre)
  case Nil
  have "map (\<lambda>k. 0 + k) (marker_indices rest) = marker_indices rest"
    by (induction "marker_indices rest") simp_all
  then show ?case by simp
next
  case (Cons l pre)
  then show ?case by (simp add: marker_indices_Cons comp_def)
qed

text \<open>
  Claim C3, as the code has it. For every show file, the parser appends to the batch exactly
  one segment per marker line (a trimmed line that starts with \<open>[\<close> and contains \<open>-->\<close>), in
  source order, at the marker's line index; the segment's \<open>text_content\<close> is the
  concatenation, in source order, of the trimmed non-blank non-marker lines between that
  marker and the next marker (or the end of the file), each preceded by one space. Lines
  before the first marker contribute to no segment: the text of the segments does not depend
  on them.
\<close>

theorem parse_show_segments:
  "parse_show relativePath date lines batch = batch @ show_segments relativePath date lines
   \<and> ((\<forall>l\<in>set pre. \<not> isMarker (trim l)) \<longrightarrow>
        map text_content (parse_show relativePath date (pre @ rest) []) =
        map text_content (parse_show relativePath date rest []))"
proof (intro conjI impI)
  have eq: "parse_show relativePath date ls b = b @ show_segments relativePath date ls"
    for ls b
    using show_loop_segments[of relativePath date 0 ls None b]
    by (simp add: parse_show_def finish_show_def show_segments_def)
  show "parse_show relativePath date lines batch = batch @ show_segments relativePath date lines"
    by (rule eq)
  assume "\<forall>l\<in>set pre. \<not> isMarker (trim l)"
  then have "marker_indices (pre @ rest) = map (\<lambda>k. length pre + k) (marker_indices rest)"
    by (rule marker_indices_prefix)
  then have "map text_content (show_segments relativePath date (pre @ rest)) =
        map text_content (show_segments relativePath date rest)"
    by (simp add: show_segments_def new_doc_def comp_def)
  then show "map text_content (parse_show relativePath date (pre @ rest) []) =
        map text_content (parse_show relativePath date rest [])"
    by (simp add: eq)
qed

theorem parse_show_segments_witness:
  "parse_show ''1999/neil-rogers-19990102.txt'' ''1999-01-02''
      [''intro'', ''[00:00:01 --> 00:00:05]'', '' Hello there '', [], ''friend'',
       ''[00:00:05 --> 00:00:09]'', ''bye''] []
     = show_segments ''1999/neil-rogers-19990102.txt'' ''1999-01-02''
      [''intro'', ''[00:00:01 --> 00:00:05]'', '' Hello there '', [], ''friend'',
       ''[00:00:05 --> 00:00:09]'', ''bye'']
   \<and> map text_content (show_segments ''1999/neil-rogers-19990102.txt'' ''1999-01-02''
      [''intro'', ''[00:00:01 --> 00:00:05]'', '' Hello there '', [], ''friend'',
       ''[00:00:05 --> 00:00:09]'', ''bye'']) = ['' Hello there friend'', '' bye'']
   \<and> list_all (\<lambda>l. \<not> isMarker (trim l)) [''intro'']
   \<and> map text_content (parse_show ''a.txt'' ''d'' ([''intro''] @ [''[0 --> 1]'', ''x'']) []) =
       map text_content (parse_show ''a.txt'' ''d'' [''[0 --> 1]'', ''x''] [])"
proof -
  have pre: "\<forall>l\<in>set [''intro'']. \<not> isMarker (trim l)" by code_simp
  have c1: "parse_show ''1999/neil-rogers-19990102.txt'' ''1999-01-02''
      [''intro'', ''[00:00:01 --> 00:00:05]'', '' Hello there '', [], ''friend'',
       ''[00:00:05 --> 00:00:09]'', ''bye''] []
     = [] @ show_segments ''1999/neil-rogers-19990102.txt'' ''1999-01-02''
      [''intro'', ''[00:00:01 --> 00:00:05]'', '' Hello there '', [], ''friend'',
       ''[00:00:05 --> 00:00:09]'', ''bye'']"
    by (rule parse_show_segments[THEN conjunct1])
  have c2: "map text_content (show_segments ''1999/neil-rogers-19990102.txt'' ''1999-01-02''
      [''intro'', ''[00:00:01 --> 00:00:05]'', '' Hello there '', [], ''friend'',
       ''[00:00:05 --> 00:00:09]'', ''bye'']) = ['' Hello there friend'', '' bye'']"
    by code_simp
  have c3: "list_all (\<lambda>l. \<not> isMarker (trim l)) [''intro'']" by code_simp
  have c4: "map text_content (parse_show ''a.txt'' ''d'' ([''intro''] @ [''[0 --> 1]'', ''x'']) []) =
       map text_content (parse_show ''a.txt'' ''d'' [''[0 --> 1]'', ''x''] [])"
    by (rule parse_show_segments[THEN conjunct2, THEN mp, OF pre])
  show ?thesis
    using c1 c2 c3 c4 unfolding append_Nil by (intro conjI)
qed

text \<open>
  C3 as stated fails: the text of a segment is not the bare concatenation of its lines. For
  a marker followed by the lines \<open>Hello\<close> and \<open>there\<close>, the text is \<open>Hello there\<close> with a
  space in front, not \<open>Hellothere\<close>.
\<close>

theorem show_text_concat_counterexample:
  "map text_content (parse_show ''a.txt'' ''d'' [''[00:00:01 --> 00:00:05]'', ''Hello'', ''there''] [])
     = ['' Hello there'']
   \<and> map text_content (parse_show ''a.txt'' ''d'' [''[00:00:01 --> 00:00:05]'', ''Hello'', ''there''] [])
     \<noteq> [concat [''Hello'', ''there'']]"
  by code_simp

section \<open>The date of a file, and its ingest\<close>

text \<open>
  Claim C7, as the code has it. The date of a file name is decided in three steps, and the
  function is applied to every enumerated file, show or best-of:
  \<^item> when a host token (\<open>rogers\<close> or \<open>lassiter\<close>), a dash and eight digits occur in the name,
    the date is the eight digits of the leftmost occurrence, formatted \<open>YYYY-MM-DD\<close>;
  \<^item> otherwise, when the name begins with four digits \<open>y\<close>, the date is \<open>y-12-31\<close>;
  \<^item> otherwise the date is the sentinel \<open>Unknown Date\<close>.
  The file is indexed in every case: whatever date the function returns, the sentinel
  included, the ingest of a show file pushes the file's registry row and every one of its
  segments, with that date.
\<close>

theorem getDateFromFilename_cases:
  "(has_host_date f \<longrightarrow>
      (\<exists>pre d. host_date_occurs f pre d
         \<and> (\<forall>pre' d'. host_date_occurs f pre' d' \<longrightarrow> length pre \<le> length pre')
         \<and> getDateFromFilename f = format_date d))
   \<and> (\<not> has_host_date f \<and> f = y @ rest \<and> length y = 4 \<and> list_all isDigit y \<longrightarrow>
        getDateFromFilename f = y @ ''-12-31'')
   \<and> (\<not> has_host_date f \<and> \<not> (\<exists>y' rest'. f = y' @ rest' \<and> length y' = 4 \<and> list_all isDigit y') \<longrightarrow>
        getDateFromFilename f = ''Unknown Date'')
   \<and> ingest path ''show'' content batch showsBatch =
       (batch @ show_segments path (getDateFromFilename (basename path)) (split_lines content),
        showsBatch @ [\<lparr>show_date = getDateFromFilename (basename path), show_file = path,
                       show_type = ''show'', show_youtube_url = None, show_custom_title = None\<rparr>])"
proof (intro conjI impI)
  assume "has_host_date f"
  then obtain d where m: "host_date_match f = Some d"
    using host_date_match_None_iff by fastforce
  from host_date_match_leftmost[OF m] obtain pre where
    occ: "host_date_occurs f pre d"
    and least: "\<forall>pre' d'. host_date_occurs f pre' d' \<longrightarrow> length pre \<le> length pre'" by blast
  have "getDateFromFilename f = format_date d"
    using m by (simp add: getDateFromFilename_def format_date_def substring_def)
  with occ least show "\<exists>pre d. host_date_occurs f pre d
         \<and> (\<forall>pre' d'. host_date_occurs f pre' d' \<longrightarrow> length pre \<le> length pre')
         \<and> getDateFromFilename f = format_date d" by blast
next
  assume a: "\<not> has_host_date f \<and> f = y @ rest \<and> length y = 4 \<and> list_all isDigit y"
  then have nh: "\<not> has_host_date f" by (rule conjunct1)
  have "host_date_match f = None" using nh host_date_match_None_iff[of f] by simp
  moreover from a have "year_match f = Some y" using year_match_Some_iff by blast
  ultimately show "getDateFromFilename f = y @ ''-12-31''"
    by (simp add: getDateFromFilename_def)
next
  assume a: "\<not> has_host_date f \<and> \<not> (\<exists>y' rest'. f = y' @ rest' \<and> length y' = 4 \<and> list_all isDigit y')"
  then have nh: "\<not> has_host_date f" by (rule conjunct1)
  have "host_date_match f = None" using nh host_date_match_None_iff[of f] by simp
  moreover from a have "year_match f = None"
    using year_match_Some_iff by (cases "year_match f") auto
  ultimately show "getDateFromFilename f = ''Unknown Date''"
    by (simp add: getDateFromFilename_def)
next
  show "ingest path ''show'' content batch showsBatch =
       (batch @ show_segments path (getDateFromFilename (basename path)) (split_lines content),
        showsBatch @ [\<lparr>show_date = getDateFromFilename (basename path), show_file = path,
                       show_type = ''show'', show_youtube_url = None, show_custom_title = None\<rparr>])"
    by (simp add: ingest_def Let_def parse_show_eq)
qed


lemma has_host_dateI: "host_date_match f = Some d \<Longrightarrow> has_host_date f"
  using host_date_match_None_iff[of f] by simp

lemma not_has_host_dateI: "host_date_match f = None \<Longrightarrow> \<not> has_host_date f"
  using host_date_match_None_iff[of f] by simp

lemma no_leading_yearI:
  "year_match f = None \<Longrightarrow> \<not> (\<exists>y rest. f = y @ rest \<and> length y = 4 \<and> list_all isDigit y)"
  using year_match_Some_iff[of f] by auto

theorem getDateFromFilename_cases_witness:
  "has_host_date ''neil-rogers-19990102.txt''
   \<and> (\<exists>pre d. host_date_occurs ''neil-rogers-19990102.txt'' pre d
         \<and> getDateFromFilename ''neil-rogers-19990102.txt'' = format_date d)
   \<and> \<not> has_host_date ''1988.md''
   \<and> getDateFromFilename ''1988.md'' = ''1988-12-31''
   \<and> \<not> has_host_date ''notes.txt''
   \<and> getDateFromFilename ''notes.txt'' = ''Unknown Date''
   \<and> ingest ''notes.txt'' ''show'' (join [CHR 0x0A] [''[00:00:01 --> 00:00:05]'', ''hello'']) [] [] =
       ([] @ show_segments ''notes.txt'' (getDateFromFilename (basename ''notes.txt''))
                (split_lines (join [CHR 0x0A] [''[00:00:01 --> 00:00:05]'', ''hello''])),
        [] @ [\<lparr>show_date = getDateFromFilename (basename ''notes.txt''), show_file = ''notes.txt'',
                       show_type = ''show'', show_youtube_url = None, show_custom_title = None\<rparr>])
   \<and> map (\<lambda>d. (doc_date d, text_content d))
        (fst (ingest ''notes.txt'' ''show'' (join [CHR 0x0A] [''[00:00:01 --> 00:00:05]'', ''hello'']) [] []))
      = [(''Unknown Date'', '' hello'')]
   \<and> map show_date
        (snd (ingest ''notes.txt'' ''show'' (join [CHR 0x0A] [''[00:00:01 --> 00:00:05]'', ''hello'']) [] []))
      = [''Unknown Date'']"
proof -
  have h1: "has_host_date ''neil-rogers-19990102.txt''"
    by (rule has_host_dateI[of _ "''19990102''"]) code_simp
  have h2: "\<not> has_host_date ''1988.md''"
    by (rule not_has_host_dateI) code_simp
  have h3: "\<not> has_host_date ''notes.txt''"
    by (rule not_has_host_dateI) code_simp
  have y3: "\<not> (\<exists>y' rest'. ''notes.txt'' = y' @ rest' \<and> length y' = 4 \<and> list_all isDigit y')"
    by (rule no_leading_yearI) code_simp
  have y2: "''1988.md'' = ''1988'' @ ''.md''" "length ''1988'' = 4" "list_all isDigit ''1988''"
    by code_simp+
  note c1full = getDateFromFilename_cases[of "''neil-rogers-19990102.txt''",
      THEN conjunct1, THEN mp, OF h1]
  then obtain pre d where "host_date_occurs ''neil-rogers-19990102.txt'' pre d"
    and "getDateFromFilename ''neil-rogers-19990102.txt'' = format_date d"
    by (elim exE conjE)
  then have c1: "\<exists>pre d. host_date_occurs ''neil-rogers-19990102.txt'' pre d
         \<and> getDateFromFilename ''neil-rogers-19990102.txt'' = format_date d"
    by (intro exI conjI)
  have c2: "getDateFromFilename ''1988.md'' = ''1988-12-31''"
    using getDateFromFilename_cases[of "''1988.md''" "''1988''" "''.md''",
      THEN conjunct2, THEN conjunct1, THEN mp, OF conjI[OF h2 conjI[OF y2(1) conjI[OF y2(2) y2(3)]]]]
    by (simp only: append.simps)
  have c3: "getDateFromFilename ''notes.txt'' = ''Unknown Date''"
    by (rule getDateFromFilename_cases[of "''notes.txt''",
      THEN conjunct2, THEN conjunct2, THEN conjunct1, THEN mp, OF conjI[OF h3 y3]])
  have c4: "ingest ''notes.txt'' ''show'' (join [CHR 0x0A] [''[00:00:01 --> 00:00:05]'', ''hello'']) [] [] =
       ([] @ show_segments ''notes.txt'' (getDateFromFilename (basename ''notes.txt''))
                (split_lines (join [CHR 0x0A] [''[00:00:01 --> 00:00:05]'', ''hello''])),
        [] @ [\<lparr>show_date = getDateFromFilename (basename ''notes.txt''), show_file = ''notes.txt'',
                       show_type = ''show'', show_youtube_url = None, show_custom_title = None\<rparr>])"
    by (rule getDateFromFilename_cases[THEN conjunct2, THEN conjunct2, THEN conjunct2])
  have c5: "map (\<lambda>d. (doc_date d, text_content d))
        (fst (ingest ''notes.txt'' ''show'' (join [CHR 0x0A] [''[00:00:01 --> 00:00:05]'', ''hello'']) [] []))
      = [(''Unknown Date'', '' hello'')]"
    by code_simp
  have c6: "map show_date
        (snd (ingest ''notes.txt'' ''show'' (join [CHR 0x0A] [''[00:00:01 --> 00:00:05]'', ''hello'']) [] []))
      = [''Unknown Date'']"
    by code_simp
  show ?thesis by (intro conjI h1 h2 h3 c1 c2 c3 c4 c5 c6)
qed

text \<open>
  C7 as stated fails: a show file named \<open>1988.txt\<close> has no host token followed by eight
  digits, and its date is \<open>1988-12-31\<close>, not the sentinel.
\<close>

theorem show_file_date_counterexample:
  "\<not> has_host_date ''1988.txt'' \<and> getDateFromFilename ''1988.txt'' = ''1988-12-31''
   \<and> getDateFromFilename ''1988.txt'' \<noteq> ''Unknown Date''"
proof -
  have "\<not> has_host_date ''1988.txt''" by (rule not_has_host_dateI) code_simp
  moreover have "getDateFromFilename ''1988.txt'' = ''1988-12-31''" by code_simp
  moreover have "getDateFromFilename ''1988.txt'' \<noteq> ''Unknown Date''" by code_simp
  ultimately show ?thesis by (intro conjI)
qed

section \<open>The link table is rebuilt from the admitted rows\<close>

lemma run_stmts_Inr:
  "run_stmts fault body s = Inr s' \<Longrightarrow> s' = apply_stmts body s"
proof (induction body arbitrary: fault s)
  case Nil
  then show ?case by (simp add: apply_stmts_def)
next
  case (Cons st sts)
  then show ?case by (auto simp: apply_stmts_def split: if_splits)
qed

lemma run_stmts_no_fault: "run_stmts None body s = Inr (apply_stmts body s)"
  by (induction body arbitrary: s) (simp_all add: apply_stmts_def)

lemma transaction_cases:
  assumes "transaction fault body s = (e, s')"
  shows "(e \<noteq> None \<and> s' = s) \<or> (e = None \<and> s' = apply_stmts body s)"
proof (cases "run_stmts fault body s")
  case (Inl a)
  with assms show ?thesis by (auto simp: transaction_def)
next
  case (Inr b)
  with assms run_stmts_Inr[OF Inr] show ?thesis by (simp add: transaction_def)
qed

lemma startsWith_http_nonempty: "startsWith s ''http'' \<Longrightarrow> s \<noteq> []"
  by (auto simp: startsWith_def)

lemma clean_row_admitted: "clean_row row = (if admitted row then Some (link_of row) else None)"
  using startsWith_http_nonempty[of "clean_field row 2"]
  by (auto simp: clean_row_def admitted_def link_of_def row_date_def row_url_def Let_def)

lemma short_row_not_admitted: "\<not> length row \<ge> 3 \<Longrightarrow> \<not> admitted row"
  by (auto simp: admitted_def row_url_def clean_field_def trim_def startsWith_def)

lemma csv_links_admitted: "csv_links csvData = map link_of (filter admitted (csv_lines csvData))"
proof -
  have "List.map_filter clean_row rows = map link_of (filter admitted rows)" for rows
    by (induction rows) (simp_all add: List.map_filter_simps clean_row_admitted)
  moreover have "filter admitted (filter (\<lambda>p. length p \<ge> 3) rows) = filter admitted rows" for rows
    using short_row_not_admitted by (induction rows) auto
  ultimately show ?thesis
    by (simp add: csv_links_def csv_rows_def csv_lines_def)
qed

lemma apply_links_fields:
  "show_links (apply_stmts (map InsertLink links) s) = foldl upsert_link (show_links s) links
   \<and> transcripts_fts (apply_stmts (map InsertLink links) s) = transcripts_fts s
   \<and> transcripts_fts_trigram (apply_stmts (map InsertLink links) s) = transcripts_fts_trigram s
   \<and> shows_table (apply_stmts (map InsertLink links) s) = shows_table s
   \<and> metadata (apply_stmts (map InsertLink links) s) = metadata s"
  by (induction links arbitrary: s) (simp_all add: apply_stmts_def upsert_link_def)

lemma map_of_upsert_link:
  "map_of (upsert_link t l) k = (if k = fst l then Some (snd l) else map_of t k)"
proof -
  have "map_of (filter (\<lambda>x. fst x \<noteq> fst l) t) k = (if k = fst l then None else map_of t k)"
    by (induction t) auto
  then show ?thesis
    by (cases l) (auto simp: upsert_link_def map_add_def split: option.splits)
qed

lemma distinct_upsert_link:
  "distinct (map fst t) \<Longrightarrow> distinct (map fst (upsert_link t l))"
  by (auto simp: upsert_link_def distinct_map_filter)

lemma set_upsert_link: "set (upsert_link t l) \<subseteq> insert l (set t)"
  by (auto simp: upsert_link_def)

lemma foldl_upsert_link:
  "distinct (map fst t) \<Longrightarrow>
     distinct (map fst (foldl upsert_link t links))
     \<and> set (foldl upsert_link t links) \<subseteq> set t \<union> set links
     \<and> map_of (foldl upsert_link t links) k =
         (case map_of (rev links) k of Some v \<Rightarrow> Some v | None \<Rightarrow> map_of t k)"
proof (induction links arbitrary: t)
  case Nil
  then show ?case by simp
next
  case (Cons l ls)
  from Cons.prems have d: "distinct (map fst (upsert_link t l))" by (rule distinct_upsert_link)
  from Cons.IH[OF d] set_upsert_link[of t l] show ?case
    by (cases l) (auto simp: map_of_upsert_link map_add_def split: option.splits)
qed

lemma map_of_rev_last:
  "map_of (rev links) k = map_option snd (last_with_date links k)"
proof (induction links rule: rev_induct)
  case Nil
  show ?case by (simp add: last_with_date_def)
next
  case (snoc l ls)
  show ?case
  proof (cases "fst l = k")
    case True
    then show ?thesis by (cases l) (auto simp: last_with_date_def)
  next
    case False
    with snoc show ?thesis by (cases l) (auto simp: last_with_date_def Let_def)
  qed
qed

lemma last_with_date_fst: "last_with_date links k = Some l \<Longrightarrow> fst l = k \<and> l \<in> set links"
proof -
  assume a: "last_with_date links k = Some l"
  then have ne: "filter (\<lambda>l. fst l = k) links \<noteq> []" and l: "l = last (filter (\<lambda>l. fst l = k) links)"
    by (auto simp: last_with_date_def Let_def split: if_splits)
  from last_in_set[OF ne] l have "l \<in> set (filter (\<lambda>l. fst l = k) links)" by simp
  then show ?thesis by simp
qed

lemma rebuilt_table_rows:
  assumes d: "distinct (map fst t)"
    and m: "\<And>k. map_of t k = map_option snd (last_with_date links k)"
  shows "set t = {l. last_with_date links (fst l) = Some l}"
proof (intro set_eqI iffI)
  fix l assume "l \<in> set t"
  then have "(fst l, snd l) \<in> set t" by simp
  with d have "map_of t (fst l) = Some (snd l)" by (rule map_of_is_SomeI)
  with m have "map_option snd (last_with_date links (fst l)) = Some (snd l)" by simp
  then have "\<exists>l'. last_with_date links (fst l) = Some l' \<and> snd l' = snd l"
    by (simp only: map_option_eq_Some)
  then obtain l' where l': "last_with_date links (fst l) = Some l'" and "snd l' = snd l"
    by (elim exE conjE)
  moreover from last_with_date_fst[OF l'] have "fst l' = fst l" by simp
  ultimately have "l' = l" by (simp add: prod_eq_iff)
  with l' show "l \<in> {l. last_with_date links (fst l) = Some l}" by simp
next
  fix l assume "l \<in> {l. last_with_date links (fst l) = Some l}"
  then have "map_of t (fst l) = Some (snd l)" using m by simp
  then have "(fst l, snd l) \<in> set t" by (rule map_of_SomeD)
  then show "l \<in> set t" by simp
qed

lemma sync_links_apply:
  "apply_stmts (DeleteLinks # map InsertLink links) s
     = apply_stmts (map InsertLink links) (s\<lparr>show_links := []\<rparr>)"
  by (simp add: apply_stmts_def)

text \<open>
  Claim C9. The rows of the metadata CSV are the lines after the header, cut into fields; a
  row's date and URL are its first and third field as the code extracts them (quotes
  removed, trimmed; a missing field is empty).
  \<^item> The links to insert are those of exactly the admitted rows, in file order.
  \<^item> The rebuild is one transaction: when a statement of it fails, the database is the one
    before; otherwise the link table holds rows of the CSV only, whatever it held before,
    at most one per date, and the row for a date is the last admitted row with that date.
    The other tables are untouched.
\<close>

theorem link_table_rebuild:
  "csv_links csvData = map link_of (filter admitted (csv_lines csvData))
   \<and> (sync_links fault (csv_links csvData) s = (e, s') \<longrightarrow>
        (e \<noteq> None \<and> s' = s)
        \<or> (e = None
            \<and> distinct (map fst (show_links s'))
            \<and> set (show_links s') = {l. last_with_date (csv_links csvData) (fst l) = Some l}
            \<and> transcripts_fts s' = transcripts_fts s
            \<and> transcripts_fts_trigram s' = transcripts_fts_trigram s
            \<and> shows_table s' = shows_table s
            \<and> metadata s' = metadata s))"
proof (intro conjI impI)
  show "csv_links csvData = map link_of (filter admitted (csv_lines csvData))"
    by (rule csv_links_admitted)
next
  let ?links = "csv_links csvData"
  assume "sync_links fault ?links s = (e, s')"
  then have "(e \<noteq> None \<and> s' = s)
      \<or> (e = None \<and> s' = apply_stmts (DeleteLinks # map InsertLink ?links) s)"
    unfolding sync_links_def by (rule transaction_cases)
  then show "(e \<noteq> None \<and> s' = s)
        \<or> (e = None
            \<and> distinct (map fst (show_links s'))
            \<and> set (show_links s') = {l. last_with_date ?links (fst l) = Some l}
            \<and> transcripts_fts s' = transcripts_fts s
            \<and> transcripts_fts_trigram s' = transcripts_fts_trigram s
            \<and> shows_table s' = shows_table s
            \<and> metadata s' = metadata s)"
  proof
    assume "e \<noteq> None \<and> s' = s"
    then show ?thesis by (rule disjI1)
  next
    assume ok: "e = None \<and> s' = apply_stmts (DeleteLinks # map InsertLink ?links) s"
    then have s': "s' = apply_stmts (map InsertLink ?links) (s\<lparr>show_links := []\<rparr>)"
      by (simp add: sync_links_apply)
    note f = apply_links_fields[of ?links "s\<lparr>show_links := []\<rparr>", folded s']
    have t: "show_links s' = foldl upsert_link [] ?links" using f by simp
    have u: "distinct (map fst (foldl upsert_link [] ?links))"
      "\<And>k. map_of (foldl upsert_link [] ?links) k = map_option snd (last_with_date ?links k)"
      using foldl_upsert_link[of "[]" ?links] map_of_rev_last[of ?links]
      by (auto split: option.splits)
    have "set (show_links s') = {l. last_with_date ?links (fst l) = Some l}"
      unfolding t by (rule rebuilt_table_rows[OF u])
    with ok t u(1) f show ?thesis by simp
  qed
qed

theorem link_table_rebuild_witness:
  "csv_links demo_csv = [(''1999-01-02'', ''http://a.example/1'', [], []),
                         (''1999-01-02'', ''https://b.example/3'', ''Neil'', ''Title'')]
   \<and> sync_links None (csv_links demo_csv) demo_links_db
       = (None, demo_links_db\<lparr>show_links := [(''1999-01-02'', ''https://b.example/3'', ''Neil'', ''Title'')]\<rparr>)
   \<and> set (show_links (demo_links_db\<lparr>show_links := [(''1999-01-02'', ''https://b.example/3'', ''Neil'', ''Title'')]\<rparr>))
       = {l. last_with_date (csv_links demo_csv) (fst l) = Some l}"
proof -
  let ?s' = "demo_links_db\<lparr>show_links := [(''1999-01-02'', ''https://b.example/3'', ''Neil'', ''Title'')]\<rparr>"
  have c1: "csv_links demo_csv = [(''1999-01-02'', ''http://a.example/1'', [], []),
                         (''1999-01-02'', ''https://b.example/3'', ''Neil'', ''Title'')]"
    by code_simp
  have h: "sync_links None (csv_links demo_csv) demo_links_db = (None, ?s')"
    by code_simp
  from link_table_rebuild[of demo_csv None demo_links_db None ?s', THEN conjunct2, THEN mp, OF h]
  have "set (show_links ?s') = {l. last_with_date (csv_links demo_csv) (fst l) = Some l}"
    by blast
  with c1 h show ?thesis by (intro conjI)
qed

section \<open>The build keeps the two indexes in lockstep\<close>

lemma apply_stmts_append: "apply_stmts (xs @ ys) s = apply_stmts ys (apply_stmts xs s)"
  by (simp add: apply_stmts_def)

lemma apply_docs_fields:
  "transcripts_fts (apply_stmts (concat (map (\<lambda>d. [InsertPorter d, InsertTrigram d]) docs)) s)
     = transcripts_fts s @ docs
   \<and> transcripts_fts_trigram (apply_stmts (concat (map (\<lambda>d. [InsertPorter d, InsertTrigram d]) docs)) s)
     = transcripts_fts_trigram s @ docs
   \<and> show_links (apply_stmts (concat (map (\<lambda>d. [InsertPorter d, InsertTrigram d]) docs)) s)
     = show_links s
   \<and> metadata (apply_stmts (concat (map (\<lambda>d. [InsertPorter d, InsertTrigram d]) docs)) s)
     = metadata s"
  by (induction docs arbitrary: s) (simp_all add: apply_stmts_def)

lemma apply_shows_fields:
  "transcripts_fts (apply_stmts (map InsertShow shws) s) = transcripts_fts s
   \<and> transcripts_fts_trigram (apply_stmts (map InsertShow shws) s) = transcripts_fts_trigram s
   \<and> show_links (apply_stmts (map InsertShow shws) s) = show_links s
   \<and> metadata (apply_stmts (map InsertShow shws) s) = metadata s"
  by (induction shws arbitrary: s) (simp_all add: apply_stmts_def)

lemma apply_insertMany_fields:
  "transcripts_fts (apply_stmts (insertMany_body docs shws links) s) = transcripts_fts s @ docs
   \<and> transcripts_fts_trigram (apply_stmts (insertMany_body docs shws links) s)
       = transcripts_fts_trigram s @ docs
   \<and> metadata (apply_stmts (insertMany_body docs shws links) s) = metadata s"
  by (simp add: insertMany_body_def apply_stmts_append apply_links_fields apply_shows_fields
      apply_docs_fields)

lemma insertMany_cases:
  assumes "insertMany fault docs shws links s = (e, s')"
  shows "(e \<noteq> None \<and> s' = s)
     \<or> (e = None
         \<and> transcripts_fts s' = transcripts_fts s @ docs
         \<and> transcripts_fts_trigram s' = transcripts_fts_trigram s @ docs
         \<and> metadata s' = metadata s)"
  using transaction_cases[OF assms[unfolded insertMany_def]] apply_insertMany_fields[of docs shws links s]
  by auto

lemma insertMany_lockstep:
  "insertMany fault docs shws links s = (e, s') \<Longrightarrow> lockstep s \<Longrightarrow> lockstep s'"
  using insertMany_cases[of fault docs shws links s e s'] by (auto simp: lockstep_def)

lemma sync_links_cases:
  assumes "sync_links fault links s = (e, s')"
  shows "(e \<noteq> None \<and> s' = s)
     \<or> (e = None
         \<and> transcripts_fts s' = transcripts_fts s
         \<and> transcripts_fts_trigram s' = transcripts_fts_trigram s
         \<and> metadata s' = metadata s)"
  using transaction_cases[OF assms[unfolded sync_links_def]]
    apply_links_fields[of links "s\<lparr>show_links := []\<rparr>"]
  by (auto simp: sync_links_apply)

lemma sync_links_lockstep:
  "sync_links fault links s = (e, s') \<Longrightarrow> lockstep s \<Longrightarrow> lockstep s'"
  using sync_links_cases[of fault links s e s'] by (auto simp: lockstep_def)

lemma lockstep_mark_complete [simp]: "lockstep (mark_complete s) = lockstep s"
  by (simp add: lockstep_def mark_complete_def)

lemma build_inv_observe:
  "build_inv obs0 srv \<Longrightarrow> build_inv obs0 (srv\<lparr>observed := observed srv @ [database srv]\<rparr>)"
  by (auto simp: build_inv_def)

lemma build_inv_progress [simp]:
  "build_inv obs0 (srv\<lparr>progress_current := n\<rparr>) = build_inv obs0 srv"
  by (simp add: build_inv_def)

lemma build_inv_console [simp]:
  "build_inv obs0 (srv\<lparr>console := c\<rparr>) = build_inv obs0 srv"
  by (simp add: build_inv_def)

lemma build_inv_isIndexed [simp]:
  "build_inv obs0 (srv\<lparr>isIndexed := b\<rparr>) = build_inv obs0 srv"
  by (simp add: build_inv_def)

lemma build_inv_database:
  "build_inv obs0 srv \<Longrightarrow> lockstep d \<Longrightarrow> build_inv obs0 (srv\<lparr>database := d\<rparr>)"
  by (simp add: build_inv_def)

lemma begin_file_inv: "build_inv obs0 srv \<Longrightarrow> build_inv obs0 (begin_file i srv)"
  using build_inv_observe[of obs0 "srv\<lparr>progress_current := i + 1\<rparr>"]
  by (simp add: begin_file_def Let_def)

lemma file_step_inv:
  assumes "build_inv obs0 (l_server st)"
  shows "case file_step flt i ft st of
        Inl (e, st') \<Rightarrow> build_inv obs0 (l_server st')
      | Inr st' \<Rightarrow> build_inv obs0 (l_server st')"
proof -
  let ?srv = "begin_file i (l_server st)"
  have inv2: "build_inv obs0 ?srv" using assms by (rule begin_file_inv)
  then have l2: "lockstep (database ?srv)" by (simp add: build_inv_def)
  show ?thesis
  proof (cases "fi_content (fst ft)")
    case None
    then show ?thesis using inv2 by (simp add: file_step_def Let_def)
  next
    case (Some content)
    obtain batch' showsBatch' where ing:
      "ingest (fi_path (fst ft)) (snd ft) content (l_batch st) (l_showsBatch st) = (batch', showsBatch')"
      by (cases "ingest (fi_path (fst ft)) (snd ft) content (l_batch st) (l_showsBatch st)")
    obtain e d' where im: "insertMany (flt (l_txn st)) batch' showsBatch' [] (database ?srv) = (e, d')"
      by (cases "insertMany (flt (l_txn st)) batch' showsBatch' [] (database ?srv)")
    from insertMany_lockstep[OF im l2] have ld: "lockstep d'" .
    show ?thesis
      using Some ing im inv2 build_inv_database[OF inv2 ld]
      by (cases e) (simp_all add: file_step_def Let_def)
  qed
qed

lemma file_loop_inv:
  "build_inv obs0 (l_server st) \<Longrightarrow>
     (case file_loop flt i files st of
        Inl (e, st') \<Rightarrow> build_inv obs0 (l_server st')
      | Inr st' \<Rightarrow> build_inv obs0 (l_server st'))"
proof (induction files arbitrary: i st)
  case Nil
  then show ?case by simp
next
  case (Cons ft rest)
  from file_step_inv[OF Cons.prems, of flt i ft] Cons.IH show ?case
    by (cases "file_step flt i ft st") auto
qed

lemma finish_build_inv:
  assumes "build_inv obs0 (l_server st)" and "finish_build env st = (err, s')"
  shows "build_inv obs0 s'"
proof -
  let ?srv = "l_server st"
  obtain e d where fl:
    "(if l_batch st \<noteq> [] \<or> l_showsBatch st \<noteq> []
      then insertMany (faults env (l_txn st)) (l_batch st) (l_showsBatch st) [] (database ?srv)
      else (None, database ?srv)) = (e, d)"
    by (cases "(if l_batch st \<noteq> [] \<or> l_showsBatch st \<noteq> []
      then insertMany (faults env (l_txn st)) (l_batch st) (l_showsBatch st) [] (database ?srv)
      else (None, database ?srv))")
  from assms(1) have l0: "lockstep (database ?srv)" by (simp add: build_inv_def)
  have ld: "lockstep d"
    using fl l0 insertMany_lockstep by (auto split: if_splits)
  show ?thesis
  proof (cases e)
    case (Some x)
    with assms(2) fl have "s' = ?srv\<lparr>database := d\<rparr>"
      by (auto simp: finish_build_def Let_def split: if_splits)
    with build_inv_database[OF assms(1) ld] show ?thesis by simp
  next
    case None
    show ?thesis
    proof (cases "csv env")
      case noCsv: None
      with assms(2) fl \<open>e = None\<close> have "s' = ?srv\<lparr>database := mark_complete d, isIndexed := True,
                              console := console ?srv @ [IndexingComplete]\<rparr>"
        by (auto simp: finish_build_def Let_def split: if_splits)
      with build_inv_database[OF assms(1), of "mark_complete d"] ld show ?thesis by simp
    next
      case (Some csvData)
      let ?txn = "if l_batch st \<noteq> [] \<or> l_showsBatch st \<noteq> [] then Suc (l_txn st) else l_txn st"
      obtain e2 d2 where sl: "sync_links (faults env ?txn) (csv_links csvData) d = (e2, d2)"
        by (cases "sync_links (faults env ?txn) (csv_links csvData) d")
      from sync_links_lockstep[OF sl ld] have l2: "lockstep d2" .
      from assms(2) fl \<open>e = None\<close> Some sl
      have "s' = ?srv\<lparr>database := d2\<rparr> \<or>
            s' = ?srv\<lparr>database := mark_complete d2, isIndexed := True,
                   console := console ?srv @ [SyncedLinks (length (csv_links csvData)), IndexingComplete]\<rparr>"
        by (cases e2) (auto simp: finish_build_def Let_def split: if_splits)
      with build_inv_database[OF assms(1), of d2] build_inv_database[OF assms(1), of "mark_complete d2"] l2
      show ?thesis by auto
    qed
  qed
qed

lemma buildIndex_inv:
  assumes "\<not> isIndexed s" and "buildIndex env s = (err, s')"
  shows "build_inv (observed s @ [(database s)\<lparr>transcripts_fts := [], transcripts_fts_trigram := [],
            shows_table := []\<rparr>]) s'"
proof -
  let ?d0 = "(database s)\<lparr>transcripts_fts := [], transcripts_fts_trigram := [], shows_table := []\<rparr>"
  let ?files = "allFiles env"
  let ?s1 = "s\<lparr>database := ?d0, observed := observed s @ [?d0],
                console := console s @ (if ?files = [] then [CriticalNoTranscripts] else []),
                progress_total := length ?files\<rparr>"
  let ?st0 = "\<lparr>l_server = ?s1, l_batch = [], l_showsBatch = [], l_txn = 0\<rparr>"
  have i0: "build_inv (observed s @ [?d0]) (l_server ?st0)"
    by (simp add: build_inv_def lockstep_def)
  note loop = file_loop_inv[OF i0, of "faults env" 0 ?files]
  show ?thesis
  proof (cases "file_loop (faults env) 0 ?files ?st0")
    case (Inl x)
    obtain e st where x: "x = (e, st)" by (cases x)
    with Inl loop have "build_inv (observed s @ [?d0]) (l_server st)" by simp
    moreover from assms Inl x have "s' = l_server st" by (simp add: buildIndex_def Let_def)
    ultimately show ?thesis by simp
  next
    case (Inr st)
    with loop have "build_inv (observed s @ [?d0]) (l_server st)" by simp
    moreover from assms Inr have "finish_build env st = (err, s')" by (simp add: buildIndex_def Let_def)
    ultimately show ?thesis by (rule finish_build_inv)
  qed
qed

text \<open>
  Claim C6. A batch is written by one transaction whose body inserts each segment into the
  stemmed table and then into the trigram table: the transaction either fails and leaves
  the database as it was, or appends the same segments to both tables. Over a whole build
  (one that runs: \<open>isIndexed\<close> is false), whether it completes or is ended by an exception,
  the two tables hold the same rows in the database it leaves and in every database that
  could be observed while it ran.
\<close>

theorem build_keeps_indexes_in_lockstep:
  "(insertMany fault docs shws links d = (e, d') \<longrightarrow>
      (e \<noteq> None \<and> d' = d)
      \<or> (e = None \<and> transcripts_fts d' = transcripts_fts d @ docs
          \<and> transcripts_fts_trigram d' = transcripts_fts_trigram d @ docs))
   \<and> (\<not> isIndexed s \<and> buildIndex env s = (err, s') \<longrightarrow>
        lockstep (database s')
        \<and> (\<exists>new. observed s' = observed s @ new \<and> new \<noteq> [] \<and> list_all lockstep new))"
proof (intro conjI impI)
  assume "insertMany fault docs shws links d = (e, d')"
  from insertMany_cases[OF this]
  show "(e \<noteq> None \<and> d' = d)
      \<or> (e = None \<and> transcripts_fts d' = transcripts_fts d @ docs
          \<and> transcripts_fts_trigram d' = transcripts_fts_trigram d @ docs)"
    by blast
next
  let ?d0 = "(database s)\<lparr>transcripts_fts := [], transcripts_fts_trigram := [], shows_table := []\<rparr>"
  assume a: "\<not> isIndexed s \<and> buildIndex env s = (err, s')"
  then have inv: "build_inv (observed s @ [?d0]) s'" using buildIndex_inv by blast
  then show "lockstep (database s')" by (simp add: build_inv_def)
  from inv obtain new where "observed s' = (observed s @ [?d0]) @ new" "list_all lockstep new"
    unfolding build_inv_def by blast
  then have "observed s' = observed s @ (?d0 # new) \<and> ?d0 # new \<noteq> [] \<and> list_all lockstep (?d0 # new)"
    by (simp add: lockstep_def)
  then show "\<exists>new. observed s' = observed s @ new \<and> new \<noteq> [] \<and> list_all lockstep new"
    by blast
qed

theorem build_keeps_indexes_in_lockstep_witness:
  "\<not> isIndexed fresh_server
   \<and> fst (buildIndex demo_env fresh_server) = None
   \<and> lockstep (database (snd (buildIndex demo_env fresh_server)))
   \<and> map text_content (transcripts_fts (database (snd (buildIndex demo_env fresh_server))))
       = ['' Rick called in'', '' cold suds'', '' Rick again'']
   \<and> fst (buildIndex demo_env_fault fresh_server) = Some SqliteError
   \<and> lockstep (database (snd (buildIndex demo_env_fault fresh_server)))
   \<and> transcripts_fts (database (snd (buildIndex demo_env_fault fresh_server))) = []"
proof -
  have n: "\<not> isIndexed fresh_server" by code_simp
  have b1: "buildIndex demo_env fresh_server
      = (fst (buildIndex demo_env fresh_server), snd (buildIndex demo_env fresh_server))"
    by simp
  have b2: "buildIndex demo_env_fault fresh_server
      = (fst (buildIndex demo_env_fault fresh_server), snd (buildIndex demo_env_fault fresh_server))"
    by simp
  have l1: "lockstep (database (snd (buildIndex demo_env fresh_server)))"
    by (rule build_keeps_indexes_in_lockstep[THEN conjunct2, THEN mp, OF conjI[OF n b1], THEN conjunct1])
  have l2: "lockstep (database (snd (buildIndex demo_env_fault fresh_server)))"
    by (rule build_keeps_indexes_in_lockstep[THEN conjunct2, THEN mp, OF conjI[OF n b2], THEN conjunct1])
  have e1: "fst (buildIndex demo_env fresh_server) = None" by code_simp
  have e2: "fst (buildIndex demo_env_fault fresh_server) = Some SqliteError" by code_simp
  have t1: "map text_content (transcripts_fts (database (snd (buildIndex demo_env fresh_server))))
       = ['' Rick called in'', '' cold suds'', '' Rick again'']" by code_simp
  have t2: "transcripts_fts (database (snd (buildIndex demo_env_fault fresh_server))) = []"
    by code_simp
  show ?thesis by (intro conjI n e1 l1 t1 e2 l2 t2)
qed

section \<open>An unreadable file ends the build\<close>

lemma file_loop_append:
  "file_loop flt i (pre @ rest) st =
     (case file_loop flt i pre st of
        Inl x \<Rightarrow> Inl x
      | Inr st' \<Rightarrow> file_loop flt (i + length pre) rest st')"
proof (induction pre arbitrary: i st)
  case Nil
  show ?case by simp
next
  case (Cons ft pre)
  show ?case
    by (cases "file_step flt i ft st") (simp_all add: Cons.IH split: sum.splits)
qed

lemma begin_file_fields [simp]:
  "database (begin_file i srv) = database srv"
  "isIndexed (begin_file i srv) = isIndexed srv"
  "progress_current (begin_file i srv) = i + 1"
  by (simp_all add: begin_file_def Let_def)

lemma insertMany_no_fault:
  "insertMany None docs shws links s = (None, apply_stmts (insertMany_body docs shws links) s)"
  by (simp add: insertMany_def transaction_def run_stmts_no_fault)

lemma file_step_unreadable:
  "fi_content (fst ft) = None \<Longrightarrow>
     file_step flt i ft st = Inl (ReadError (fi_path (fst ft)), st\<lparr>l_server := begin_file i (l_server st)\<rparr>)"
  by (simp add: file_step_def Let_def)

lemma file_step_readable:
  assumes "fi_content (fst ft) \<noteq> None" and "flt (l_txn st) = None"
  shows "\<exists>st'. file_step flt i ft st = Inr st'"
proof -
  from assms(1) obtain content where c: "fi_content (fst ft) = Some content" by auto
  obtain batch' showsBatch' where ing:
    "ingest (fi_path (fst ft)) (snd ft) content (l_batch st) (l_showsBatch st) = (batch', showsBatch')"
    by (cases "ingest (fi_path (fst ft)) (snd ft) content (l_batch st) (l_showsBatch st)")
  show ?thesis
    using c ing assms(2) by (simp add: file_step_def Let_def insertMany_no_fault)
qed

lemma file_loop_completes:
  "\<forall>ft\<in>set files. fi_content (fst ft) \<noteq> None \<Longrightarrow> \<forall>k. flt k = None \<Longrightarrow>
     \<exists>st'. file_loop flt i files st = Inr st'"
proof (induction files arbitrary: i st)
  case Nil
  show ?case by simp
next
  case (Cons ft rest)
  from Cons.prems have "fi_content (fst ft) \<noteq> None" "flt (l_txn st) = None" by simp_all
  from file_step_readable[of ft flt st i, OF this] obtain st1 where "file_step flt i ft st = Inr st1"
    by blast
  moreover from Cons.prems(1) have r: "\<forall>ft\<in>set rest. fi_content (fst ft) \<noteq> None" by simp
  from Cons.IH[OF r Cons.prems(2), of "Suc i" st1]
  obtain st' where "file_loop flt (Suc i) rest st1 = Inr st'" by blast
  ultimately show ?case by simp
qed

lemma file_step_kept:
  assumes "file_step flt i ft st = Inr st'"
  shows "isIndexed (l_server st') = isIndexed (l_server st)
       \<and> metadata (database (l_server st')) = metadata (database (l_server st))"
proof -
  from assms obtain content where c: "fi_content (fst ft) = Some content"
    by (cases "fi_content (fst ft)") (simp_all add: file_step_def Let_def)
  obtain batch' showsBatch' where ing:
    "ingest (fi_path (fst ft)) (snd ft) content (l_batch st) (l_showsBatch st) = (batch', showsBatch')"
    by (cases "ingest (fi_path (fst ft)) (snd ft) content (l_batch st) (l_showsBatch st)")
  obtain e d' where im:
    "insertMany (flt (l_txn st)) batch' showsBatch' [] (database (l_server st)) = (e, d')"
    by (cases "insertMany (flt (l_txn st)) batch' showsBatch' [] (database (l_server st))")
  from insertMany_cases[OF im] have "metadata d' = metadata (database (l_server st))" by auto
  with assms c ing im show ?thesis
    by (cases e) (auto simp: file_step_def Let_def split: if_splits)
qed

lemma file_loop_kept:
  "file_loop flt i files st = Inr st' \<Longrightarrow>
     isIndexed (l_server st') = isIndexed (l_server st)
     \<and> metadata (database (l_server st')) = metadata (database (l_server st))"
proof (induction files arbitrary: i st)
  case Nil
  then show ?case by simp
next
  case (Cons ft rest)
  from Cons.prems obtain st1 where s1: "file_step flt i ft st = Inr st1"
    and rest: "file_loop flt (Suc i) rest st1 = Inr st'"
    by (cases "file_step flt i ft st") simp_all
  from file_step_kept[OF s1] Cons.IH[OF rest] show ?case by simp
qed

lemma doc_file_new_doc [simp]: "doc_file (new_doc rel date j txt ty) = rel"
  by (simp add: new_doc_def)

lemma show_segments_file: "d \<in> set (show_segments rel date lines) \<Longrightarrow> doc_file d = rel"
  by (auto simp: show_segments_def)

lemma best_of_loop_files:
  "d \<in> set (best_of_loop rel date j ls batch) \<Longrightarrow> d \<in> set batch \<or> doc_file d = rel"
proof (induction ls arbitrary: j batch)
  case Nil
  then show ?case by simp
next
  case (Cons l ls)
  show ?case
  proof (cases "trim l = [] \<or> trim l = ''.''")
    case True
    with Cons.prems have "d \<in> set (best_of_loop rel date (Suc j) ls batch)"
      by (simp add: Let_def)
    then show ?thesis by (rule Cons.IH)
  next
    case skip: False
    show ?thesis
    proof (cases "tsMatch (trim l)")
      case True
      with skip Cons.prems
      have "d \<in> set (best_of_loop rel date (Suc j) ls (batch @ [new_doc rel date j (trim l) ''best_of'']))"
        by (simp add: Let_def)
      from Cons.IH[OF this] show ?thesis by auto
    next
      case False
      with skip Cons.prems have "d \<in> set (best_of_loop rel date (Suc j) ls batch)"
        by (simp add: Let_def)
      then show ?thesis by (rule Cons.IH)
    qed
  qed
qed

lemma ingest_files:
  assumes "ingest (fi_path (fst ft)) (snd ft) content batch shws = (batch', shws')"
    and "d \<in> set batch'"
  shows "d \<in> set batch \<or> doc_file d = rel_path ft"
proof (cases "snd ft = ''best_of''")
  case True
  with assms(1) have "batch' = best_of_loop (rel_path ft)
      (getDateFromFilename (basename (fi_path (fst ft)))) 2 (drop 2 (split_lines content)) batch"
    by (simp add: ingest_def Let_def rel_path_def)
  with assms(2) show ?thesis using best_of_loop_files by blast
next
  case False
  with assms(1) have "batch' = batch @ show_segments (rel_path ft)
      (getDateFromFilename (basename (fi_path (fst ft)))) (split_lines content)"
    by (simp add: ingest_def Let_def rel_path_def parse_show_eq)
  with assms(2) show ?thesis using show_segments_file by auto
qed

lemma file_step_origin:
  assumes "origin F st" and "file_step flt i ft st = Inr st'"
  shows "origin (insert (rel_path ft) F) st'"
proof -
  from assms(2) obtain content where c: "fi_content (fst ft) = Some content"
    by (cases "fi_content (fst ft)") (simp_all add: file_step_def Let_def)
  obtain batch' showsBatch' where ing:
    "ingest (fi_path (fst ft)) (snd ft) content (l_batch st) (l_showsBatch st) = (batch', showsBatch')"
    by (cases "ingest (fi_path (fst ft)) (snd ft) content (l_batch st) (l_showsBatch st)")
  obtain e d' where im:
    "insertMany (flt (l_txn st)) batch' showsBatch' [] (database (l_server st)) = (e, d')"
    by (cases "insertMany (flt (l_txn st)) batch' showsBatch' [] (database (l_server st))")
  have b: "\<forall>d\<in>set batch'. doc_file d \<in> insert (rel_path ft) F"
    using ingest_files[OF ing] assms(1) by (auto simp: origin_def)
  have old: "\<forall>d\<in>set (transcripts_fts (database (l_server st))). doc_file d \<in> insert (rel_path ft) F"
    using assms(1) by (auto simp: origin_def)
  show ?thesis
  proof (cases "length showsBatch' \<ge> 50")
    case False
    with assms(2) c ing have "st' = \<lparr>l_server = begin_file i (l_server st), l_batch = batch',
        l_showsBatch = showsBatch', l_txn = l_txn st\<rparr>"
      by (simp add: file_step_def Let_def)
    with b old show ?thesis by (simp add: origin_def)
  next
    case True
    with assms(2) c ing im have e: "e = None"
      and st': "st' = \<lparr>l_server = (begin_file i (l_server st))\<lparr>database := d',
                 console := console (begin_file i (l_server st)) @ [IndexedFiles (i + 1)]\<rparr>,
               l_batch = [], l_showsBatch = [], l_txn = Suc (l_txn st)\<rparr>"
      by (cases e; simp add: file_step_def Let_def)+
    from insertMany_cases[OF im] e
    have "transcripts_fts d' = transcripts_fts (database (l_server st)) @ batch'" by auto
    with b old st' show ?thesis by (auto simp: origin_def)
  qed
qed

lemma origin_mono: "origin F st \<Longrightarrow> F \<subseteq> G \<Longrightarrow> origin G st"
  by (auto simp: origin_def)

lemma file_loop_origin:
  "origin F st \<Longrightarrow> file_loop flt i files st = Inr st' \<Longrightarrow> origin (F \<union> rel_path ` set files) st'"
proof (induction files arbitrary: i st F)
  case Nil
  then show ?case by simp
next
  case (Cons ft rest)
  from Cons.prems(2) obtain st1 where s1: "file_step flt i ft st = Inr st1"
    and rest: "file_loop flt (Suc i) rest st1 = Inr st'"
    by (cases "file_step flt i ft st") simp_all
  from file_step_origin[OF Cons.prems(1) s1] have "origin (insert (rel_path ft) F) st1" .
  from Cons.IH[OF this rest] show ?case
    by (rule origin_mono) auto
qed

text \<open>
  Claim C5, as the code has it. The loop reads each file with \<^verbatim>\<open>fs.readFileSync\<close> and has no
  handler around it. When an enumerated file cannot be read (the files before it being
  readable and no database statement failing), the build ends at that file with the read
  exception: the progress counter stops at that file, every indexed segment comes from a
  file before it, the build-version marker is not written and \<open>isIndexed\<close> stays false.
\<close>

theorem unreadable_file_aborts_build:
  assumes "\<not> isIndexed s"
    and "allFiles env = pre @ (f, ty) # post"
    and "fi_content f = None"
    and "\<forall>ft\<in>set pre. fi_content (fst ft) \<noteq> None"
    and "\<forall>k. faults env k = None"
    and "buildIndex env s = (err, s')"
  shows "err = Some (ReadError (fi_path f))
     \<and> \<not> isIndexed s'
     \<and> metadata (database s') = metadata (database s)
     \<and> progress_current s' = length pre + 1
     \<and> (\<forall>d\<in>set (transcripts_fts (database s')). doc_file d \<in> rel_path ` set pre)"
proof -
  define st0 where "st0 =
    \<lparr>l_server = s\<lparr>database := (database s)\<lparr>transcripts_fts := [], transcripts_fts_trigram := [],
                       shows_table := []\<rparr>,
                   observed := observed s @ [(database s)\<lparr>transcripts_fts := [],
                       transcripts_fts_trigram := [], shows_table := []\<rparr>],
                   console := console s @ (if allFiles env = [] then [CriticalNoTranscripts] else []),
                   progress_total := length (allFiles env)\<rparr>,
     l_batch = [], l_showsBatch = [], l_txn = 0\<rparr>"
  from file_loop_completes[OF assms(4,5), of 0 st0]
  obtain st where pre: "file_loop (faults env) 0 pre st0 = Inr st" by blast
  have step: "file_step (faults env) (length pre) (f, ty) st
      = Inl (ReadError (fi_path f), st\<lparr>l_server := begin_file (length pre) (l_server st)\<rparr>)"
    using file_step_unreadable[of "(f, ty)"] assms(3) by simp
  have loop: "file_loop (faults env) 0 (allFiles env) st0
      = Inl (ReadError (fi_path f), st\<lparr>l_server := begin_file (length pre) (l_server st)\<rparr>)"
    by (simp add: assms(2) file_loop_append pre step)
  from assms(1,6) loop[unfolded st0_def] have res: "err = Some (ReadError (fi_path f))"
    "s' = begin_file (length pre) (l_server st)"
    by (simp_all add: buildIndex_def Let_def)
  from file_loop_kept[OF pre] assms(1)
  have kept: "\<not> isIndexed (l_server st)" "metadata (database (l_server st)) = metadata (database s)"
    by (simp_all add: st0_def)
  have "origin {} st0" by (simp add: origin_def st0_def)
  from file_loop_origin[OF this pre] have "origin (rel_path ` set pre) st" by simp
  then have org: "\<forall>d\<in>set (transcripts_fts (database (l_server st))). doc_file d \<in> rel_path ` set pre"
    by (simp add: origin_def)
  from res kept org show ?thesis by simp
qed

theorem unreadable_file_aborts_build_witness:
  "\<not> isIndexed fresh_server
   \<and> allFiles demo_env_unreadable
       = [(demo_file_a, ''show'')] @ (demo_file_unreadable, ''show'') # [(demo_file_b, ''show'')]
   \<and> fi_content demo_file_unreadable = None
   \<and> fst (buildIndex demo_env_unreadable fresh_server) = Some (ReadError (fi_path demo_file_unreadable))
   \<and> \<not> isIndexed (snd (buildIndex demo_env_unreadable fresh_server))
   \<and> progress_current (snd (buildIndex demo_env_unreadable fresh_server)) = 2"
proof -
  have h1: "\<not> isIndexed fresh_server" by code_simp
  have h2: "allFiles demo_env_unreadable
       = [(demo_file_a, ''show'')] @ (demo_file_unreadable, ''show'') # [(demo_file_b, ''show'')]"
    by code_simp
  have h3: "fi_content demo_file_unreadable = None" by code_simp
  have h4: "\<forall>ft\<in>set [(demo_file_a, ''show'')]. fi_content (fst ft) \<noteq> None" by code_simp
  have h5: "\<forall>k. faults demo_env_unreadable k = None"
    by (simp add: demo_env_unreadable_def no_faults_def)
  have h6: "buildIndex demo_env_unreadable fresh_server
      = (fst (buildIndex demo_env_unreadable fresh_server), snd (buildIndex demo_env_unreadable fresh_server))"
    by simp
  note t = unreadable_file_aborts_build[OF h1 h2 h3 h4 h5 h6]
  from t have c1: "fst (buildIndex demo_env_unreadable fresh_server) = Some (ReadError (fi_path demo_file_unreadable))"
    by (rule conjunct1)
  from t have c2: "\<not> isIndexed (snd (buildIndex demo_env_unreadable fresh_server))"
    by (elim conjE)
  from t have "progress_current (snd (buildIndex demo_env_unreadable fresh_server)) = length [(demo_file_a, ''show'')] + 1"
    by (elim conjE)
  then have c3: "progress_current (snd (buildIndex demo_env_unreadable fresh_server)) = 2"
    by simp
  show ?thesis by (intro conjI h1 h2 h3 c1 c2 c3)
qed

text \<open>
  C5 as stated fails: with a readable file, an unreadable one and another readable one, the
  build does not skip the second and go on. It ends with the read exception; the index holds
  no segment, neither of the file before nor of the file after; no completion marker is
  written and \<open>isIndexed\<close> stays false.
\<close>

theorem unreadable_file_counterexample:
  "fst (buildIndex demo_env_unreadable fresh_server) = Some (ReadError ''1999/neil-rogers-19990104.txt'')
   \<and> transcripts_fts (database (snd (buildIndex demo_env_unreadable fresh_server))) = []
   \<and> \<not> marker_says_indexed (database (snd (buildIndex demo_env_unreadable fresh_server)))
   \<and> \<not> isIndexed (snd (buildIndex demo_env_unreadable fresh_server))"
  by code_simp

section \<open>A build that finds no file, and the searches after it\<close>

lemma exec_query_empty:
  "table_of (q_table q) s = [] \<Longrightarrow>
     exec_query eng s q = (if fts_ok eng (q_match q) then Inr [] else Inl SqliteError)"
  by (simp add: exec_query_def selected_rows_def)

lemma table_of_empty:
  "transcripts_fts s = [] \<Longrightarrow> transcripts_fts_trigram s = [] \<Longrightarrow> table_of t s = []"
  by (cases t) (simp_all add: table_of_def)

text \<open>On empty tables the closure gives no row, and whether it throws does not depend on
  the table.\<close>

lemma getSearchResults_empty:
  assumes "transcripts_fts s = []" and "transcripts_fts_trigram s = []"
  shows "(\<exists>e. snd (getSearchResults eng s req query isAnd t qs off) = Inl e
             \<and> snd (getSearchResults eng s req query isAnd t' qs off) = Inl e)
       \<or> (snd (getSearchResults eng s req query isAnd t qs off) = Inr []
           \<and> snd (getSearchResults eng s req query isAnd t' qs off) = Inr [])"
proof -
  have e: "exec_query eng s q = (if fts_ok eng (q_match q) then Inr [] else Inl SqliteError)" for q
    by (rule exec_query_empty) (simp add: table_of_empty assms)
  show ?thesis
  proof (cases isAnd)
    case False
    then show ?thesis by (simp add: getSearchResults_def prepare_search_def Let_def e)
  next
    case True
    show ?thesis
    proof (cases "map_err (\<lambda>p. expandQuery (trim p)) (split_AND query)")
      case (Inl a)
      with True show ?thesis by (simp add: getSearchResults_def prepare_search_def Let_def)
    next
      case (Inr ps)
      with True show ?thesis by (simp add: getSearchResults_def prepare_search_def Let_def e)
    qed
  qed
qed

lemma search_empty_index:
  assumes idx: "isIndexed srv"
    and p: "transcripts_fts (database srv) = []"
    and t: "transcripts_fts_trigram (database srv) = []"
  shows "fst (search eng fs srv req) = empty_index_response req"
proof (cases "r_q req")
  case None
  with idx show ?thesis by (simp add: search_def empty_index_response_def)
next
  case (Some query)
  show ?thesis
  proof (cases "trim query = []")
    case True
    with idx Some show ?thesis by (simp add: search_def empty_index_response_def)
  next
    case nonblank: False
    show ?thesis
    proof (cases "expandQuery query")
      case (Inl e)
      with idx Some nonblank show ?thesis
        by (simp add: search_def empty_index_response_def Let_def)
    next
      case (Inr expandedQuery)
      let ?isAnd = "is_and_search expandedQuery"
      let ?g = "\<lambda>tb. getSearchResults eng (database srv) req query ?isAnd tb expandedQuery (r_offset req)"
      have resp: "empty_index_response req = Json []"
        using Some nonblank Inr by (simp add: empty_index_response_def)
      show ?thesis
      proof (cases "cleanedQuery expandedQuery = []")
        case True
        with idx Some nonblank Inr resp show ?thesis by (simp add: search_def Let_def)
      next
        case cleaned: False
        obtain st1 r1 where g1: "?g Transcripts_fts = (st1, r1)" by (cases "?g Transcripts_fts")
        obtain st2 r2 where g2: "?g Transcripts_fts_trigram = (st2, r2)"
          by (cases "?g Transcripts_fts_trigram")
        from getSearchResults_empty[OF p t, of eng req query ?isAnd Transcripts_fts expandedQuery
            "r_offset req" Transcripts_fts_trigram] g1 g2
        have "(\<exists>e. r1 = Inl e \<and> r2 = Inl e) \<or> (r1 = Inr [] \<and> r2 = Inr [])" by simp
        then show ?thesis
        proof
          assume "\<exists>e. r1 = Inl e \<and> r2 = Inl e"
          then obtain e where "r1 = Inl e" by blast
          with idx Some nonblank Inr cleaned g1 resp show ?thesis
            by (simp add: search_def Let_def)
        next
          assume "r1 = Inr [] \<and> r2 = Inr []"
          with idx Some nonblank Inr cleaned g1 g2 resp show ?thesis
            by (simp add: search_def Let_def)
        qed
      qed
    qed
  qed
qed

lemma marker_after_mark_complete [simp]: "marker_says_indexed (mark_complete s)"
proof -
  have "map_of (filter (\<lambda>kv. fst kv \<noteq> k) m @ [(k, v)]) k = Some v" for m :: "(string \<times> string) list" and k v
    by (induction m) auto
  then show ?thesis by (simp add: marker_says_indexed_def mark_complete_def)
qed

lemma mark_complete_tables [simp]:
  "transcripts_fts (mark_complete s) = transcripts_fts s"
  "transcripts_fts_trigram (mark_complete s) = transcripts_fts_trigram s"
  by (simp_all add: mark_complete_def)

lemma sync_links_no_fault:
  "sync_links None links s = (None, apply_stmts (map InsertLink links) (s\<lparr>show_links := []\<rparr>))"
  by (simp add: sync_links_def transaction_def run_stmts_no_fault sync_links_apply)

lemma buildIndex_no_files:
  assumes "allFiles env = []" and "\<not> isIndexed s" and "faults env 0 = None"
    and "buildIndex env s = (err, s')"
  shows "err = None \<and> CriticalNoTranscripts \<in> set (console s')
     \<and> transcripts_fts (database s') = [] \<and> transcripts_fts_trigram (database s') = []
     \<and> marker_says_indexed (database s') \<and> isIndexed s'"
proof (cases "csv env")
  case None
  with assms show ?thesis
    by (auto simp: buildIndex_def finish_build_def Let_def)
next
  case (Some csvData)
  with assms show ?thesis
    by (auto simp: buildIndex_def finish_build_def Let_def sync_links_no_fault apply_links_fields)
qed

text \<open>
  Claim C8, evaluated on the code. When the build finds no source file at any root (and the
  link-table transaction does not fail), it logs the critical error, leaves both indexes
  empty, writes the build-version marker, sets \<open>isIndexed\<close> and ends without an exception.
  A search after it answers with the empty list, unless the expansion of the query throws:
  then it answers with status 500. The expansion throws for the query \<open>constructor\<close>, because
  the thesaurus lookup finds the property every object inherits.
\<close>

theorem empty_build_then_search:
  assumes "allFiles env = []" and "\<not> isIndexed s" and "faults env 0 = None"
    and "buildIndex env s = (err, s')"
  shows "err = None \<and> CriticalNoTranscripts \<in> set (console s')
     \<and> transcripts_fts (database s') = [] \<and> transcripts_fts_trigram (database s') = []
     \<and> marker_says_indexed (database s') \<and> isIndexed s'
     \<and> fst (search eng fs s' req) = empty_index_response req
     \<and> search eng fs s' \<lparr>r_q = Some ''constructor'', r_years = None, r_type = None, r_offset = 0\<rparr>
         = (Error500 TypeError, [])"
proof -
  note b = buildIndex_no_files[OF assms]
  then have idx: "isIndexed s'" and p: "transcripts_fts (database s') = []"
    and t: "transcripts_fts_trigram (database s') = []" by simp_all
  have e: "expandQuery ''constructor'' = Inl TypeError" by code_simp
  have nb: "trim ''constructor'' \<noteq> []" by code_simp
  have "search eng fs s' \<lparr>r_q = Some ''constructor'', r_years = None, r_type = None, r_offset = 0\<rparr>
         = (Error500 TypeError, [])"
    using idx e nb by (simp add: search_def Let_def)
  with b search_empty_index[OF idx p t] show ?thesis by simp
qed

theorem empty_build_then_search_witness:
  "allFiles demo_env_empty = [] \<and> \<not> isIndexed fresh_server \<and> faults demo_env_empty 0 = None
   \<and> fst (buildIndex demo_env_empty fresh_server) = None
   \<and> isIndexed (snd (buildIndex demo_env_empty fresh_server))
   \<and> marker_says_indexed (database (snd (buildIndex demo_env_empty fresh_server)))
   \<and> fst (search demo_engine no_files (snd (buildIndex demo_env_empty fresh_server))
        \<lparr>r_q = Some ''suds'', r_years = None, r_type = None, r_offset = 0\<rparr>) = Json []
   \<and> search demo_engine no_files (snd (buildIndex demo_env_empty fresh_server))
        \<lparr>r_q = Some ''constructor'', r_years = None, r_type = None, r_offset = 0\<rparr>
       = (Error500 TypeError, [])"
proof -
  have h1: "allFiles demo_env_empty = []" by code_simp
  have h2: "\<not> isIndexed fresh_server" by code_simp
  have h3: "faults demo_env_empty 0 = None" by code_simp
  have h4: "buildIndex demo_env_empty fresh_server
      = (fst (buildIndex demo_env_empty fresh_server), snd (buildIndex demo_env_empty fresh_server))"
    by simp
  note t = empty_build_then_search[OF h1 h2 h3 h4, of demo_engine no_files
      "\<lparr>r_q = Some ''suds'', r_years = None, r_type = None, r_offset = 0\<rparr>"]
  have r: "empty_index_response \<lparr>r_q = Some ''suds'', r_years = None, r_type = None, r_offset = 0\<rparr>
      = Json []" by code_simp
  from t have c1: "fst (buildIndex demo_env_empty fresh_server) = None" by (rule conjunct1)
  from t have c2: "isIndexed (snd (buildIndex demo_env_empty fresh_server))" by (elim conjE)
  from t have c3: "marker_says_indexed (database (snd (buildIndex demo_env_empty fresh_server)))"
    by (elim conjE)
  from t have "fst (search demo_engine no_files (snd (buildIndex demo_env_empty fresh_server))
        \<lparr>r_q = Some ''suds'', r_years = None, r_type = None, r_offset = 0\<rparr>)
      = empty_index_response \<lparr>r_q = Some ''suds'', r_years = None, r_type = None, r_offset = 0\<rparr>"
    by (elim conjE)
  then have c4: "fst (search demo_engine no_files (snd (buildIndex demo_env_empty fresh_server))
        \<lparr>r_q = Some ''suds'', r_years = None, r_type = None, r_offset = 0\<rparr>) = Json []"
    by (simp only: r)
  from t have c5: "search demo_engine no_files (snd (buildIndex demo_env_empty fresh_server))
        \<lparr>r_q = Some ''constructor'', r_years = None, r_type = None, r_offset = 0\<rparr>
       = (Error500 TypeError, [])"
    by (elim conjE)
  show ?thesis by (intro conjI h1 h2 h3 c1 c2 c3 c4 c5)
qed

section \<open>The search handler\<close>

lemma prepare_search_table:
  "prepare_search req query isAnd t qs off = Inr q \<Longrightarrow>
     prepare_search req query isAnd t' qs off = Inr (q\<lparr>q_table := t'\<rparr>)
     \<and> q_table q = t \<and> q_offset q = off"
  by (auto simp: prepare_search_def Let_def split: if_splits sum.splits)

lemma prepare_search_table_error:
  "prepare_search req query isAnd t qs off = Inl e \<Longrightarrow>
     prepare_search req query isAnd t' qs off = Inl e"
  by (auto simp: prepare_search_def Let_def split: if_splits sum.splits)

text \<open>The handler once the early returns are passed.\<close>

lemma search_reached:
  assumes "isIndexed srv" and "r_q req = Some query" and "trim query \<noteq> []"
    and "expandQuery query = Inr e" and "cleanedQuery e \<noteq> []"
  shows "search eng fs srv req =
     (case getSearchResults eng (database srv) req query (is_and_search e) Transcripts_fts e (r_offset req) of
        (stmts, Inl ftsError) \<Rightarrow> (Json [], stmts)
      | (stmts, Inr results) \<Rightarrow>
          if \<not> is_verbatim query \<and> results = [] \<and> length query \<ge> 3 then
            (case getSearchResults eng (database srv) req query (is_and_search e)
                    Transcripts_fts_trigram e (r_offset req) of
               (stmts', Inl err) \<Rightarrow> (Error500 err, stmts @ stmts')
             | (stmts', Inr fuzzyResults) \<Rightarrow> (Json (map (enrich fs) fuzzyResults), stmts @ stmts'))
          else (Json (map (enrich fs) results), stmts))"
  using assms by (simp add: search_def Let_def)

lemma search_not_reached:
  assumes "\<not> (isIndexed srv \<and> (\<exists>query e. r_q req = Some query \<and> trim query \<noteq> []
             \<and> expandQuery query = Inr e \<and> cleanedQuery e \<noteq> []))"
  shows "snd (search eng fs srv req) = []
     \<and> (\<forall>out. fst (search eng fs srv req) = Json out \<longrightarrow> out = [])"
proof (cases "isIndexed srv")
  case False
  then show ?thesis by (simp add: search_def)
next
  case idx: True
  show ?thesis
  proof (cases "r_q req")
    case None
    with idx show ?thesis by (simp add: search_def)
  next
    case (Some query)
    show ?thesis
    proof (cases "trim query = []")
      case True
      with idx Some show ?thesis by (simp add: search_def)
    next
      case nb: False
      show ?thesis
      proof (cases "expandQuery query")
        case (Inl err)
        with idx Some nb show ?thesis by (simp add: search_def Let_def)
      next
        case (Inr e)
        with assms idx Some nb have "cleanedQuery e = []" by auto
        with idx Some nb Inr show ?thesis by (simp add: search_def Let_def)
      qed
    qed
  qed
qed

text \<open>
  What a request does to the indexes, by cases on the two calls of the closure: it prepares
  the statement for the exact table; when the preparation throws, nothing is run.
\<close>

lemma search_stmts_cases:
  assumes "isIndexed srv" and "r_q req = Some query" and "trim query \<noteq> []"
    and "expandQuery query = Inr e" and "cleanedQuery e \<noteq> []"
  shows "(\<exists>err. prepare_search req query (is_and_search e) Transcripts_fts e (r_offset req) = Inl err
            \<and> search eng fs srv req = (Json [], []))
       \<or> (\<exists>q. prepare_search req query (is_and_search e) Transcripts_fts e (r_offset req) = Inr q
            \<and> (case exec_query eng (database srv) q of
                  Inl err \<Rightarrow> search eng fs srv req = (Json [], [q])
                | Inr results \<Rightarrow>
                    if \<not> is_verbatim query \<and> results = [] \<and> length query \<ge> 3 then
                      (case exec_query eng (database srv) (q\<lparr>q_table := Transcripts_fts_trigram\<rparr>) of
                         Inl err \<Rightarrow> search eng fs srv req
                                      = (Error500 err, [q, q\<lparr>q_table := Transcripts_fts_trigram\<rparr>])
                       | Inr fuzzyResults \<Rightarrow> search eng fs srv req
                           = (Json (map (enrich fs) fuzzyResults), [q, q\<lparr>q_table := Transcripts_fts_trigram\<rparr>]))
                    else search eng fs srv req = (Json (map (enrich fs) results), [q])))"
proof (cases "prepare_search req query (is_and_search e) Transcripts_fts e (r_offset req)")
  case (Inl err)
  then show ?thesis
    by (simp add: search_reached[OF assms] getSearchResults_def)
next
  case (Inr q)
  note t = prepare_search_table[OF Inr, of Transcripts_fts_trigram, THEN conjunct1]
  show ?thesis
    by (simp add: search_reached[OF assms] getSearchResults_def Inr t split: sum.splits)
qed

lemma fallback_iff_empty_page:
  assumes nv: "\<not> is_verbatim query" and len: "length query \<ge> 3" and q: "r_q req = Some query"
  shows "ran_on Transcripts_fts_trigram (snd (search eng fs srv req))
     \<longleftrightarrow> exact_page_empty eng (database srv) (r_offset req) (snd (search eng fs srv req))"
proof (cases "isIndexed srv \<and> (\<exists>query e. r_q req = Some query \<and> trim query \<noteq> []
             \<and> expandQuery query = Inr e \<and> cleanedQuery e \<noteq> [])")
  case False
  from search_not_reached[OF False] have "snd (search eng fs srv req) = []" by simp
  then show ?thesis by (simp add: ran_on_def exact_page_empty_def)
next
  case True
  with q obtain e where a: "isIndexed srv" "r_q req = Some query" "trim query \<noteq> []"
    "expandQuery query = Inr e" "cleanedQuery e \<noteq> []" by auto
  from search_stmts_cases[OF a, of eng fs] show ?thesis
  proof (elim disjE exE conjE)
    fix err
    assume "search eng fs srv req = (Json [], [])"
    then show ?thesis by (simp add: ran_on_def exact_page_empty_def)
  next
    fix st
    assume p: "prepare_search req query (is_and_search e) Transcripts_fts e (r_offset req) = Inr st"
      and c: "case exec_query eng (database srv) st of
                  Inl err \<Rightarrow> search eng fs srv req = (Json [], [st])
                | Inr results \<Rightarrow>
                    if \<not> is_verbatim query \<and> results = [] \<and> length query \<ge> 3 then
                      (case exec_query eng (database srv) (st\<lparr>q_table := Transcripts_fts_trigram\<rparr>) of
                         Inl err \<Rightarrow> search eng fs srv req
                                      = (Error500 err, [st, st\<lparr>q_table := Transcripts_fts_trigram\<rparr>])
                       | Inr fuzzyResults \<Rightarrow> search eng fs srv req
                           = (Json (map (enrich fs) fuzzyResults), [st, st\<lparr>q_table := Transcripts_fts_trigram\<rparr>]))
                    else search eng fs srv req = (Json (map (enrich fs) results), [st])"
    from prepare_search_table[OF p, of Transcripts_fts] have st: "q_table st = Transcripts_fts"
      "q_offset st = r_offset req" by simp_all
    show ?thesis
    proof (cases "exec_query eng (database srv) st")
      case (Inl err)
      with c st show ?thesis by (simp add: ran_on_def exact_page_empty_def)
    next
      case (Inr results)
      show ?thesis
      proof (cases "results = []")
        case False
        with c Inr st show ?thesis by (simp add: ran_on_def exact_page_empty_def)
      next
        case True
        with c Inr nv len have
          "snd (search eng fs srv req) = [st, st\<lparr>q_table := Transcripts_fts_trigram\<rparr>]"
          by (cases "exec_query eng (database srv) (st\<lparr>q_table := Transcripts_fts_trigram\<rparr>)") simp_all
        with Inr True st show ?thesis by (simp add: ran_on_def exact_page_empty_def)
      qed
    qed
  qed
qed

lemma hit_doc_decorate [simp]: "hit_doc (decorate eng s q d) = d"
  by (simp add: decorate_def Let_def)

lemma fst_enrich [simp]: "fst (enrich fs h) = h"
  by (simp add: enrich_def Let_def split: option.splits)

lemma file_in_all_iff:
  "file_in_all eng t rows ps d \<longleftrightarrow>
     (\<forall>p\<in>set ps. \<exists>d'\<in>set rows. doc_file d' = doc_file d \<and> fts_match eng t p d')"
  by (simp add: file_in_all_def list_all_iff list_ex_iff)

lemma selected_rows_member:
  "d \<in> set (selected_rows eng s q) \<longleftrightarrow>
     d \<in> set (table_of (q_table q) s)
     \<and> fts_match eng (q_table q) (q_match q) d
     \<and> year_filter (q_years q) d
     \<and> file_in_all eng (q_table q) (table_of (q_table q) s) (q_intersect q) d
     \<and> doc_type d = q_type q"
  by (auto simp: selected_rows_def Let_def)

lemma exec_query_hit:
  assumes "exec_query eng s q = Inr hits" and "h \<in> set hits"
  shows "hit_doc h \<in> set (selected_rows eng s q)"
proof -
  from assms(1) have "hits = map (decorate eng s q) (take 100 (drop (q_offset q) (selected_rows eng s q)))"
    by (auto simp: exec_query_def split: if_splits)
  with assms(2) obtain d where "h = decorate eng s q d"
    and "d \<in> set (take 100 (drop (q_offset q) (selected_rows eng s q)))" by auto
  then show ?thesis by (auto dest: in_set_takeD in_set_dropD)
qed

lemma prepare_search_and:
  assumes "prepare_search req query True t qs off = Inr q"
  shows "\<exists>ps. map_err (\<lambda>p. expandQuery (trim p)) (split_AND query) = Inr ps
            \<and> q_match q = or_group ps \<and> q_intersect q = ps \<and> q_table q = t"
  using assms by (auto simp: prepare_search_def Let_def split: sum.splits)

lemma prepare_search_plain:
  "prepare_search req query False t qs off = Inr q \<Longrightarrow>
     q_match q = qs \<and> q_intersect q = [] \<and> q_table q = t"
  by (auto simp: prepare_search_def Let_def)

text \<open>Every row of a response comes from one statement that the request ran.\<close>

lemma search_row_source:
  assumes "search eng fs srv req = (Json out, stmts)" and "x \<in> set out"
  shows "\<exists>query e q hits. r_q req = Some query \<and> expandQuery query = Inr e
     \<and> prepare_search req query (is_and_search e) (q_table q) e (r_offset req) = Inr q
     \<and> q \<in> set stmts
     \<and> exec_query eng (database srv) q = Inr hits \<and> fst x \<in> set hits"
proof (cases "isIndexed srv \<and> (\<exists>query e. r_q req = Some query \<and> trim query \<noteq> []
             \<and> expandQuery query = Inr e \<and> cleanedQuery e \<noteq> [])")
  case False
  from search_not_reached[OF False, of eng fs] assms(1) have "out = []" by simp
  with assms(2) show ?thesis by simp
next
  case True
  then obtain query e where a: "isIndexed srv" "r_q req = Some query" "trim query \<noteq> []"
    "expandQuery query = Inr e" "cleanedQuery e \<noteq> []" by blast
  let ?P = "prepare_search req query (is_and_search e)"
  have goal: "\<exists>query e q hits. r_q req = Some query \<and> expandQuery query = Inr e
     \<and> prepare_search req query (is_and_search e) (q_table q) e (r_offset req) = Inr q
     \<and> q \<in> set stmts
     \<and> exec_query eng (database srv) q = Inr hits \<and> fst x \<in> set hits"
    if "?P (q_table q) e (r_offset req) = Inr q" "q \<in> set stmts"
      "exec_query eng (database srv) q = Inr hits" "fst x \<in> set hits" for q hits
    using a(2,4) that by (intro exI conjI)
  from search_stmts_cases[OF a, of eng fs]
  consider (threw) "search eng fs srv req = (Json [], [])"
    | (ran) q where "?P Transcripts_fts e (r_offset req) = Inr q"
        "case exec_query eng (database srv) q of
                  Inl err \<Rightarrow> search eng fs srv req = (Json [], [q])
                | Inr results \<Rightarrow>
                    if \<not> is_verbatim query \<and> results = [] \<and> length query \<ge> 3 then
                      (case exec_query eng (database srv) (q\<lparr>q_table := Transcripts_fts_trigram\<rparr>) of
                         Inl err \<Rightarrow> search eng fs srv req
                                      = (Error500 err, [q, q\<lparr>q_table := Transcripts_fts_trigram\<rparr>])
                       | Inr fuzzyResults \<Rightarrow> search eng fs srv req
                           = (Json (map (enrich fs) fuzzyResults), [q, q\<lparr>q_table := Transcripts_fts_trigram\<rparr>]))
                    else search eng fs srv req = (Json (map (enrich fs) results), [q])"
    by blast
  then show ?thesis
  proof cases
    case threw
    with assms(1) have "out = []" by simp
    with assms(2) show ?thesis by simp
  next
    case (ran q)
    let ?q' = "q\<lparr>q_table := Transcripts_fts_trigram\<rparr>"
    note p = ran(1) and c = ran(2)
    from prepare_search_table[OF p, of Transcripts_fts_trigram]
    have p': "?P Transcripts_fts_trigram e (r_offset req) = Inr ?q'" and qt: "q_table q = Transcripts_fts"
      by simp_all
    show ?thesis
    proof (cases "exec_query eng (database srv) q")
      case (Inl err)
      with c assms(1) have "out = []" by simp
      with assms(2) show ?thesis by simp
    next
      case (Inr results)
      show ?thesis
      proof (cases "\<not> is_verbatim query \<and> results = [] \<and> length query \<ge> 3")
        case False
        with c Inr have "search eng fs srv req = (Json (map (enrich fs) results), [q])" by simp
        with assms(1) have o: "out = map (enrich fs) results" and s: "stmts = [q]" by simp_all
        from assms(2) o have "fst x \<in> fst ` set (map (enrich fs) results)" by simp
        then have m: "fst x \<in> set results" by (simp add: image_image)
        have "?P (q_table q) e (r_offset req) = Inr q" using p qt by simp
        moreover have "q \<in> set stmts" using s by simp
        ultimately show ?thesis using Inr m by (rule goal)
      next
        case fb: True
        show ?thesis
        proof (cases "exec_query eng (database srv) ?q'")
          case (Inl err)
          with c Inr fb have "search eng fs srv req = (Error500 err, [q, ?q'])" by simp
          with assms(1) show ?thesis by simp
        next
          case fz: (Inr fuzzyResults)
          with c Inr fb have "search eng fs srv req = (Json (map (enrich fs) fuzzyResults), [q, ?q'])"
            by simp
          with assms(1) have o: "out = map (enrich fs) fuzzyResults" and s: "stmts = [q, ?q']"
            by simp_all
          from assms(2) o have "fst x \<in> fst ` set (map (enrich fs) fuzzyResults)" by simp
          then have m: "fst x \<in> set fuzzyResults" by (simp add: image_image)
          have "?P (q_table ?q') e (r_offset req) = Inr ?q'" using p' by simp
          moreover have "?q' \<in> set stmts" using s by simp
          ultimately show ?thesis using fz m by (rule goal)
        qed
      qed
    qed
  qed
qed

section \<open>AND searches\<close>

text \<open>
  Claim C1. Take a request whose expanded query contains \<open>AND\<close> between blanks, in any case.
  Its sub-clauses are the expansions of the parts of the request's query between the
  \<open>AND\<close> separators. Every row of the response comes from one table \<open>t\<close> (the exact table,
  or the trigram table on fallback) and
  \<^item> for every sub-clause, some segment of the same file in \<open>t\<close> matches it: the file is in
    the intersection of the per-clause file sets;
  \<^item> the row's own segment matches the \<open>OR\<close> of the sub-clauses, which for an engine that
    reads \<open>OR\<close> as disjunction means that it matches at least one sub-clause.
  The witness shows a returned segment that matches one sub-clause and not the other.
\<close>

theorem and_search_results:
  assumes "r_q req = Some query" and "expandQuery query = Inr e" and "is_and_search e"
    and "search eng fs srv req = (Json out, stmts)" and "x \<in> set out"
  shows "\<exists>ps t. map_err (\<lambda>p. expandQuery (trim p)) (split_AND query) = Inr ps
     \<and> hit_doc (fst x) \<in> set (table_of t (database srv))
     \<and> (\<forall>p\<in>set ps. \<exists>d'\<in>set (table_of t (database srv)).
            doc_file d' = doc_file (hit_doc (fst x)) \<and> fts_match eng t p d')
     \<and> fts_match eng t (or_group ps) (hit_doc (fst x))
     \<and> ((\<forall>d. fts_match eng t (or_group ps) d = (\<exists>p\<in>set ps. fts_match eng t p d))
          \<longrightarrow> (\<exists>p\<in>set ps. fts_match eng t p (hit_doc (fst x))))"
proof -
  from search_row_source[OF assms(4,5)] assms(1,2)
  obtain q hits where p: "prepare_search req query (is_and_search e) (q_table q) e (r_offset req) = Inr q"
    and ex: "exec_query eng (database srv) q = Inr hits" and m: "fst x \<in> set hits"
    by auto
  from p assms(3) have "prepare_search req query True (q_table q) e (r_offset req) = Inr q" by simp
  from prepare_search_and[OF this] obtain ps where
    ps: "map_err (\<lambda>p. expandQuery (trim p)) (split_AND query) = Inr ps"
    and qm: "q_match q = or_group ps" and qi: "q_intersect q = ps" by blast
  from exec_query_hit[OF ex m] have sel: "hit_doc (fst x) \<in> set (selected_rows eng (database srv) q)" .
  let ?t = "q_table q"
  from sel have 1: "hit_doc (fst x) \<in> set (table_of ?t (database srv))"
    and 2: "fts_match eng ?t (or_group ps) (hit_doc (fst x))"
    and 3: "\<forall>p\<in>set ps. \<exists>d'\<in>set (table_of ?t (database srv)).
            doc_file d' = doc_file (hit_doc (fst x)) \<and> fts_match eng ?t p d'"
    by (simp_all add: selected_rows_member qm qi file_in_all_iff)
  from 2 have 4: "(\<forall>d. fts_match eng ?t (or_group ps) d = (\<exists>p\<in>set ps. fts_match eng ?t p d))
          \<longrightarrow> (\<exists>p\<in>set ps. fts_match eng ?t p (hit_doc (fst x)))" by blast
  from ps 1 3 2 4 show ?thesis by blast
qed

theorem and_search_results_witness:
  "r_q (demo_request ''Rick AND Suds'' 0) = Some ''Rick AND Suds''
   \<and> expandQuery ''Rick AND Suds'' = Inr ''rick and suds''
   \<and> is_and_search ''rick and suds''
   \<and> map (doc_id \<circ> hit_doc \<circ> fst) demo_and_rows
       = [''1999/neil-rogers-19990102.txt::0'', ''1999/neil-rogers-19990102.txt::2'']
   \<and> text_content (hit_doc (fst (hd demo_and_rows))) = '' Rick called in''
   \<and> fts_match demo_engine Transcripts_fts ''rick'' (hit_doc (fst (hd demo_and_rows)))
   \<and> \<not> fts_match demo_engine Transcripts_fts ''suds'' (hit_doc (fst (hd demo_and_rows)))
   \<and> (\<exists>ps t. map_err (\<lambda>p. expandQuery (trim p)) (split_AND ''Rick AND Suds'') = Inr ps
        \<and> hit_doc (fst (hd demo_and_rows)) \<in> set (table_of t (database demo_server))
        \<and> (\<forall>p\<in>set ps. \<exists>d'\<in>set (table_of t (database demo_server)).
              doc_file d' = doc_file (hit_doc (fst (hd demo_and_rows))) \<and> fts_match demo_engine t p d')
        \<and> fts_match demo_engine t (or_group ps) (hit_doc (fst (hd demo_and_rows))))"
proof -
  let ?req = "demo_request ''Rick AND Suds'' 0"
  have h1: "r_q ?req = Some ''Rick AND Suds''" by code_simp
  have h2: "expandQuery ''Rick AND Suds'' = Inr ''rick and suds''" by code_simp
  have h3: "is_and_search ''rick and suds''" by code_simp
  have h4: "search demo_engine no_files demo_server ?req
      = (Json demo_and_rows, snd (search demo_engine no_files demo_server ?req))"
    by code_simp
  have h5: "hd demo_and_rows \<in> set demo_and_rows" by code_simp
  have c1: "map (doc_id \<circ> hit_doc \<circ> fst) demo_and_rows
       = [''1999/neil-rogers-19990102.txt::0'', ''1999/neil-rogers-19990102.txt::2'']"
    by code_simp
  have c2: "text_content (hit_doc (fst (hd demo_and_rows))) = '' Rick called in''" by code_simp
  have c3: "fts_match demo_engine Transcripts_fts ''rick'' (hit_doc (fst (hd demo_and_rows)))"
    by code_simp
  have c4: "\<not> fts_match demo_engine Transcripts_fts ''suds'' (hit_doc (fst (hd demo_and_rows)))"
    by code_simp
  from and_search_results[OF h1 h2 h3 h4 h5]
  obtain ps t where "map_err (\<lambda>p. expandQuery (trim p)) (split_AND ''Rick AND Suds'') = Inr ps"
    "hit_doc (fst (hd demo_and_rows)) \<in> set (table_of t (database demo_server))"
    "\<forall>p\<in>set ps. \<exists>d'\<in>set (table_of t (database demo_server)).
              doc_file d' = doc_file (hit_doc (fst (hd demo_and_rows))) \<and> fts_match demo_engine t p d'"
    "fts_match demo_engine t (or_group ps) (hit_doc (fst (hd demo_and_rows)))"
    by (elim exE conjE)
  then have c5: "\<exists>ps t. map_err (\<lambda>p. expandQuery (trim p)) (split_AND ''Rick AND Suds'') = Inr ps
        \<and> hit_doc (fst (hd demo_and_rows)) \<in> set (table_of t (database demo_server))
        \<and> (\<forall>p\<in>set ps. \<exists>d'\<in>set (table_of t (database demo_server)).
              doc_file d' = doc_file (hit_doc (fst (hd demo_and_rows))) \<and> fts_match demo_engine t p d')
        \<and> fts_match demo_engine t (or_group ps) (hit_doc (fst (hd demo_and_rows)))"
    by (intro exI conjI)
  show ?thesis by (intro conjI h1 h2 h3 c1 c2 c3 c4 c5)
qed

section \<open>Errors of the index and verbatim queries\<close>

lemma search_exact_error:
  assumes "isIndexed srv" and "r_q req = Some query" and "trim query \<noteq> []"
    and "expandQuery query = Inr e" and "cleanedQuery e \<noteq> []"
    and "snd (getSearchResults eng (database srv) req query (is_and_search e)
                Transcripts_fts e (r_offset req)) = Inl err"
  shows "fst (search eng fs srv req) = Json []"
proof -
  obtain stmts r where g: "getSearchResults eng (database srv) req query (is_and_search e)
                Transcripts_fts e (r_offset req) = (stmts, r)"
    by (cases "getSearchResults eng (database srv) req query (is_and_search e)
                Transcripts_fts e (r_offset req)")
  with assms(6) have "r = Inl err" by simp
  with g show ?thesis by (simp add: search_reached[OF assms(1-5)])
qed

text \<open>
  Claim C4, evaluated on the code. A syntax error that the exact index raises is caught by
  the handler's inner \<open>try\<close> and the response is the empty list. The call on the trigram
  index is outside that \<open>try\<close>: an error it raises reaches the outer \<open>catch\<close>, which
  answers with status 500. This happens for the query \<open>( ric AND col )\<close> on the demo index:
  the expression for the rows parses, the exact index has no row for it and never evaluates
  the sub-selects on the parts \<open>( ric\<close> and \<open>col )\<close>; the trigram index has a row, evaluates
  them and raises the syntax error, whether or not the engine leaves out the operands after
  an empty one.
\<close>

theorem fuzzy_syntax_error_reaches_caller:
  "(isIndexed srv \<and> r_q req = Some query \<and> trim query \<noteq> [] \<and> expandQuery query = Inr e
      \<and> cleanedQuery e \<noteq> []
      \<and> snd (getSearchResults eng (database srv) req query (is_and_search e)
                Transcripts_fts e (r_offset req)) = Inl err
      \<longrightarrow> fst (search eng fs srv req) = Json [])
   \<and> search demo_engine no_files demo_server (demo_request ''( ric AND col )'' 0)
       = (Error500 SqliteError,
          [\<lparr>q_table = Transcripts_fts, q_match = ''(( ric OR col ))'',
            q_intersect = [''( ric'', ''col )''], q_type = ''show'', q_years = None, q_offset = 0\<rparr>,
           \<lparr>q_table = Transcripts_fts_trigram, q_match = ''(( ric OR col ))'',
            q_intersect = [''( ric'', ''col )''], q_type = ''show'', q_years = None, q_offset = 0\<rparr>])
   \<and> fst (search demo_engine_skipping no_files demo_server (demo_request ''( ric AND col )'' 0))
       = Error500 SqliteError
   \<and> exec_query demo_engine (database demo_server)
         \<lparr>q_table = Transcripts_fts, q_match = ''(( ric OR col ))'',
          q_intersect = [''( ric'', ''col )''], q_type = ''show'', q_years = None, q_offset = 0\<rparr>
       = Inr []
   \<and> exec_query demo_engine (database demo_server)
         \<lparr>q_table = Transcripts_fts_trigram, q_match = ''(( ric OR col ))'',
          q_intersect = [''( ric'', ''col )''], q_type = ''show'', q_years = None, q_offset = 0\<rparr>
       = Inl SqliteError"
proof (intro conjI impI)
  assume "isIndexed srv \<and> r_q req = Some query \<and> trim query \<noteq> [] \<and> expandQuery query = Inr e
      \<and> cleanedQuery e \<noteq> []
      \<and> snd (getSearchResults eng (database srv) req query (is_and_search e)
                Transcripts_fts e (r_offset req)) = Inl err"
  then show "fst (search eng fs srv req) = Json []"
    using search_exact_error by blast
qed code_simp+

theorem fuzzy_syntax_error_reaches_caller_witness:
  "isIndexed demo_server \<and> r_q (demo_request ''-'' 0) = Some ''-'' \<and> trim ''-'' \<noteq> []
   \<and> expandQuery ''-'' = Inr ''-'' \<and> cleanedQuery ''-'' \<noteq> []
   \<and> snd (getSearchResults demo_engine (database demo_server) (demo_request ''-'' 0) ''-''
             (is_and_search ''-'') Transcripts_fts ''-'' (r_offset (demo_request ''-'' 0)))
       = Inl SqliteError
   \<and> fst (search demo_engine no_files demo_server (demo_request ''-'' 0)) = Json []"
proof -
  have h1: "isIndexed demo_server" by code_simp
  have h2: "r_q (demo_request ''-'' 0) = Some ''-''" by code_simp
  have h3: "trim ''-'' \<noteq> []" by code_simp
  have h4: "expandQuery ''-'' = Inr ''-''" by code_simp
  have h5: "cleanedQuery ''-'' \<noteq> []" by code_simp
  have h6: "snd (getSearchResults demo_engine (database demo_server) (demo_request ''-'' 0) ''-''
             (is_and_search ''-'') Transcripts_fts ''-'' (r_offset (demo_request ''-'' 0)))
       = Inl SqliteError" by code_simp
  have c: "fst (search demo_engine no_files demo_server (demo_request ''-'' 0)) = Json []"
    by (rule fuzzy_syntax_error_reaches_caller[THEN conjunct1, THEN mp,
          OF conjI[OF h1 conjI[OF h2 conjI[OF h3 conjI[OF h4 conjI[OF h5 h6]]]]]])
  show ?thesis by (intro conjI h1 h2 h3 h4 h5 h6 c)
qed

lemma expandQuery_verbatim: "is_verbatim query \<Longrightarrow> expandQuery query = Inr query"
  by (simp add: expandQuery_def)

lemma lone_quote:
  assumes "startsWith query [c]" and "\<not> length query > 1"
  shows "query = [c]"
proof -
  from assms(1) have "take 1 query = [c]" by (simp add: startsWith_def)
  with assms(2) show ?thesis by (cases query) auto
qed

lemma expandQuery_lone_quote: "expandQuery [CHR 0x22] = Inr []"
  by code_simp

lemma cleanedQuery_Nil: "cleanedQuery [] = []"
  by (simp add: cleanedQuery_def trim_def)

lemma verbatim_stmts:
  assumes v: "is_verbatim query" and q: "r_q req = Some query"
  shows "list_all (\<lambda>st. q_table st = Transcripts_fts
            \<and> (\<not> is_and_search query \<longrightarrow> q_match st = query \<and> q_intersect st = []))
          (snd (search eng fs srv req))"
proof (cases "isIndexed srv \<and> (\<exists>query e. r_q req = Some query \<and> trim query \<noteq> []
             \<and> expandQuery query = Inr e \<and> cleanedQuery e \<noteq> [])")
  case False
  from search_not_reached[OF False, of eng fs] show ?thesis by simp
next
  case True
  with q expandQuery_verbatim[OF v]
  have a: "isIndexed srv" "r_q req = Some query" "trim query \<noteq> []"
    "expandQuery query = Inr query" "cleanedQuery query \<noteq> []" by auto
  from search_stmts_cases[OF a, of eng fs]
  consider (threw) "search eng fs srv req = (Json [], [])"
    | (ran) st where "prepare_search req query (is_and_search query) Transcripts_fts query (r_offset req) = Inr st"
        "case exec_query eng (database srv) st of
                  Inl err \<Rightarrow> search eng fs srv req = (Json [], [st])
                | Inr results \<Rightarrow>
                    if \<not> is_verbatim query \<and> results = [] \<and> length query \<ge> 3 then
                      (case exec_query eng (database srv) (st\<lparr>q_table := Transcripts_fts_trigram\<rparr>) of
                         Inl err \<Rightarrow> search eng fs srv req
                                      = (Error500 err, [st, st\<lparr>q_table := Transcripts_fts_trigram\<rparr>])
                       | Inr fuzzyResults \<Rightarrow> search eng fs srv req
                           = (Json (map (enrich fs) fuzzyResults), [st, st\<lparr>q_table := Transcripts_fts_trigram\<rparr>]))
                    else search eng fs srv req = (Json (map (enrich fs) results), [st])"
    by blast
  then show ?thesis
  proof cases
    case threw
    then show ?thesis by simp
  next
    case (ran st)
    from ran(2) v have s: "snd (search eng fs srv req) = [st]"
      by (cases "exec_query eng (database srv) st") simp_all
    from prepare_search_table[OF ran(1), of Transcripts_fts] have t: "q_table st = Transcripts_fts"
      by simp
    have "q_match st = query \<and> q_intersect st = []" if "\<not> is_and_search query"
      using ran(1) that prepare_search_plain[of req query Transcripts_fts query "r_offset req" st]
      by simp
    with s t show ?thesis by simp
  qed
qed

text \<open>
  Claim C2, as the code has it. For every query that starts and ends with a double quote,
  the trigram index is never queried. When the query has more than one character, it is
  verbatim: \<open>expandQuery\<close> returns it unchanged, with no thesaurus expansion and no character
  stripped, and, unless it contains \<open>AND\<close> between blanks (in any case), every statement run
  for it is on the exact index with the query itself as match expression and no file
  filter. A query that is the lone character \<open>"\<close> is not verbatim: the quote is stripped
  and no index is queried.
\<close>

theorem verbatim_query_handling:
  assumes "startsWith query [CHR 0x22]" and "endsWith query [CHR 0x22]" and "r_q req = Some query"
  shows "\<not> ran_on Transcripts_fts_trigram (snd (search eng fs srv req))
     \<and> (length query > 1 \<longrightarrow>
          expandQuery query = Inr query
          \<and> (\<not> is_and_search query \<longrightarrow>
               list_all (\<lambda>st. q_table st = Transcripts_fts \<and> q_match st = query \<and> q_intersect st = [])
                 (snd (search eng fs srv req))))
     \<and> (\<not> length query > 1 \<longrightarrow> expandQuery query = Inr [] \<and> snd (search eng fs srv req) = [])"
proof (cases "length query > 1")
  case True
  with assms(1,2) have v: "is_verbatim query" by (simp add: is_verbatim_def)
  note l = verbatim_stmts[OF v assms(3), of eng fs srv]
  from l have "\<not> ran_on Transcripts_fts_trigram (snd (search eng fs srv req))"
    by (auto simp: ran_on_def list_all_iff list_ex_iff)
  moreover from l have "\<not> is_and_search query \<longrightarrow>
      list_all (\<lambda>st. q_table st = Transcripts_fts \<and> q_match st = query \<and> q_intersect st = [])
        (snd (search eng fs srv req))"
    by (auto simp: list_all_iff)
  ultimately show ?thesis using True expandQuery_verbatim[OF v] by simp
next
  case False
  from lone_quote[OF assms(1) False] have qq: "query = [CHR 0x22]" .
  have "\<not> (isIndexed srv \<and> (\<exists>query e. r_q req = Some query \<and> trim query \<noteq> []
             \<and> expandQuery query = Inr e \<and> cleanedQuery e \<noteq> []))"
    using assms(3) qq expandQuery_lone_quote cleanedQuery_Nil by auto
  from search_not_reached[OF this, of eng fs] have "snd (search eng fs srv req) = []" by simp
  with False qq expandQuery_lone_quote show ?thesis by (simp add: ran_on_def)
qed

theorem verbatim_query_handling_witness:
  "startsWith demo_quoted [CHR 0x22] \<and> endsWith demo_quoted [CHR 0x22]
   \<and> r_q (demo_request demo_quoted 0) = Some demo_quoted
   \<and> length demo_quoted > 1 \<and> \<not> is_and_search demo_quoted
   \<and> snd (search demo_engine no_files demo_server (demo_request demo_quoted 0))
       = [\<lparr>q_table = Transcripts_fts, q_match = demo_quoted, q_intersect = [], q_type = ''show'',
           q_years = None, q_offset = 0\<rparr>]
   \<and> \<not> ran_on Transcripts_fts_trigram
         (snd (search demo_engine no_files demo_server (demo_request demo_quoted 0)))
   \<and> expandQuery demo_quoted = Inr demo_quoted"
proof -
  have h1: "startsWith demo_quoted [CHR 0x22]" by code_simp
  have h2: "endsWith demo_quoted [CHR 0x22]" by code_simp
  have h3: "r_q (demo_request demo_quoted 0) = Some demo_quoted" by code_simp
  have h4: "length demo_quoted > 1" by code_simp
  have h5: "\<not> is_and_search demo_quoted" by code_simp
  have c0: "snd (search demo_engine no_files demo_server (demo_request demo_quoted 0))
       = [\<lparr>q_table = Transcripts_fts, q_match = demo_quoted, q_intersect = [], q_type = ''show'',
           q_years = None, q_offset = 0\<rparr>]" by code_simp
  note t = verbatim_query_handling[OF h1 h2 h3, of demo_engine no_files demo_server]
  from t have c1: "\<not> ran_on Transcripts_fts_trigram
         (snd (search demo_engine no_files demo_server (demo_request demo_quoted 0)))"
    by (rule conjunct1)
  from t have "length demo_quoted > 1 \<longrightarrow> expandQuery demo_quoted = Inr demo_quoted
          \<and> (\<not> is_and_search demo_quoted \<longrightarrow>
               list_all (\<lambda>st. q_table st = Transcripts_fts \<and> q_match st = demo_quoted \<and> q_intersect st = [])
                 (snd (search demo_engine no_files demo_server (demo_request demo_quoted 0))))"
    by (elim conjE)
  from this h4 have "expandQuery demo_quoted = Inr demo_quoted
          \<and> (\<not> is_and_search demo_quoted \<longrightarrow>
               list_all (\<lambda>st. q_table st = Transcripts_fts \<and> q_match st = demo_quoted \<and> q_intersect st = [])
                 (snd (search demo_engine no_files demo_server (demo_request demo_quoted 0))))"
    by (rule mp)
  then have c2: "expandQuery demo_quoted = Inr demo_quoted" by (rule conjunct1)
  show ?thesis by (intro conjI h1 h2 h3 h4 h5 c0 c1 c2)
qed

text \<open>
  C2 as stated fails. The query that is one double quote starts and ends with a double
  quote, and its quote is stripped: the expansion is empty. And a quoted query with \<open>AND\<close>
  in it is not passed through: for \<open>"jorge AND suds"\<close> the expression that is matched has the
  quotes stripped and the thesaurus applied.
\<close>

theorem verbatim_passthrough_counterexample:
  "startsWith [CHR 0x22] [CHR 0x22] \<and> endsWith [CHR 0x22] [CHR 0x22]
   \<and> expandQuery [CHR 0x22] = Inr []
   \<and> expandQuery [CHR 0x22] \<noteq> Inr [CHR 0x22]
   \<and> startsWith demo_quoted_and [CHR 0x22] \<and> endsWith demo_quoted_and [CHR 0x22]
   \<and> map q_match (snd (search demo_engine no_files demo_server (demo_request demo_quoted_and 0)))
       = [''((jorge OR george) OR suds)'']
   \<and> map q_intersect (snd (search demo_engine no_files demo_server (demo_request demo_quoted_and 0)))
       = [[''(jorge OR george)'', ''suds'']]"
  by code_simp

section \<open>The fuzzy fallback is decided page by page\<close>

text \<open>
  Claim C10. The fallback is decided per request, from the requested page. For every query
  that is not verbatim and has at least three characters, and every requested offset, the
  trigram index is queried exactly when the exact index was queried for the page at that
  offset and returned the empty page. So it happens that a query with between 1 and 100
  exact hits has its second page served from the trigram index: in the corpus
  \<open>demo_many_docs\<close> the query \<open>suds\<close> has one exact hit; the request at offset 0 runs on the
  exact index only and returns that hit; the request at offset 100 runs on both indexes and
  returns two segments that the exact index does not match.
\<close>

theorem fuzzy_fallback_is_per_page:
  "(\<not> is_verbatim query \<and> length query \<ge> 3 \<and> r_q req = Some query \<longrightarrow>
      (ran_on Transcripts_fts_trigram (snd (search eng fs srv req))
       \<longleftrightarrow> exact_page_empty eng (database srv) (r_offset req) (snd (search eng fs srv req))))
   \<and> length (selected_rows demo_engine (database demo_many_server)
        \<lparr>q_table = Transcripts_fts, q_match = ''suds'', q_intersect = [], q_type = ''show'',
         q_years = None, q_offset = 0\<rparr>) = 1
   \<and> (case search demo_engine no_files demo_many_server (demo_request ''suds'' 0) of
        (resp, stmts) \<Rightarrow> (map (doc_id \<circ> hit_doc \<circ> fst) (json_rows resp), map q_table stmts))
       = ([''a.txt::0''], [Transcripts_fts])
   \<and> (case search demo_engine no_files demo_many_server (demo_request ''suds'' 100) of
        (resp, stmts) \<Rightarrow> (map (doc_id \<circ> hit_doc \<circ> fst) (json_rows resp), map q_table stmts))
       = ([''b.txt::100'', ''b.txt::101''], [Transcripts_fts, Transcripts_fts_trigram])"
proof (intro conjI impI)
  assume "\<not> is_verbatim query \<and> length query \<ge> 3 \<and> r_q req = Some query"
  then show "ran_on Transcripts_fts_trigram (snd (search eng fs srv req))
       \<longleftrightarrow> exact_page_empty eng (database srv) (r_offset req) (snd (search eng fs srv req))"
    using fallback_iff_empty_page by blast
next
  show "length (selected_rows demo_engine (database demo_many_server)
        \<lparr>q_table = Transcripts_fts, q_match = ''suds'', q_intersect = [], q_type = ''show'',
         q_years = None, q_offset = 0\<rparr>) = 1"
    by code_simp
next
  show "(case search demo_engine no_files demo_many_server (demo_request ''suds'' 0) of
        (resp, stmts) \<Rightarrow> (map (doc_id \<circ> hit_doc \<circ> fst) (json_rows resp), map q_table stmts))
       = ([''a.txt::0''], [Transcripts_fts])"
    by code_simp
next
  show "(case search demo_engine no_files demo_many_server (demo_request ''suds'' 100) of
        (resp, stmts) \<Rightarrow> (map (doc_id \<circ> hit_doc \<circ> fst) (json_rows resp), map q_table stmts))
       = ([''b.txt::100'', ''b.txt::101''], [Transcripts_fts, Transcripts_fts_trigram])"
    by code_simp
qed

theorem fuzzy_fallback_is_per_page_witness:
  "\<not> is_verbatim ''ric'' \<and> length ''ric'' \<ge> 3 \<and> r_q (demo_request ''ric'' 0) = Some ''ric''
   \<and> ran_on Transcripts_fts_trigram (snd (search demo_engine no_files demo_server (demo_request ''ric'' 0)))
   \<and> exact_page_empty demo_engine (database demo_server) (r_offset (demo_request ''ric'' 0))
        (snd (search demo_engine no_files demo_server (demo_request ''ric'' 0)))"
proof -
  have h1: "\<not> is_verbatim ''ric''" by code_simp
  have h2: "length ''ric'' \<ge> 3" by code_simp
  have h3: "r_q (demo_request ''ric'' 0) = Some ''ric''" by code_simp
  have r: "ran_on Transcripts_fts_trigram (snd (search demo_engine no_files demo_server (demo_request ''ric'' 0)))"
    by code_simp
  note t = fuzzy_fallback_is_per_page[of "''ric''" "demo_request ''ric'' 0" demo_engine no_files demo_server,
      THEN conjunct1, THEN mp, OF conjI[OF h1 conjI[OF h2 h3]]]
  from r t have e: "exact_page_empty demo_engine (database demo_server) (r_offset (demo_request ''ric'' 0))
        (snd (search demo_engine no_files demo_server (demo_request ''ric'' 0)))"
    by (rule iffD1[OF _ _, rotated])
  show ?thesis by (intro conjI h1 h2 h3 r e)
qed

end
